theory Spec2Isabelle
  imports Main "HOL-Library.List_Lexorder" "HOL-Library.Char_ord" "HOL-Library.Multiset"
begin

section \<open>Values, truthiness and dictionaries\<close>

text \<open>
  The decoded form of a YAML or JSON document, as \<^verbatim>\<open>yaml.safe_load\<close> and
  \<^verbatim>\<open>json.load\<close> return it. A Python \<^verbatim>\<open>str\<close> is represented by its UTF-8 encoding
  (a \<^typ>\<open>string\<close> is a list of bytes), so that equality, order and concatenation are
  those of Python and the length of a string is the length of its encoded form
  (a \<^verbatim>\<open>str\<close> holding a lone surrogate, which has no encoding, is not represented).
  A \<^verbatim>\<open>dict\<close> is the list of its items in insertion order; its keys are strings and
  pairwise distinct. Floating-point numbers and YAML timestamps are left out.
\<close>

datatype val =
    VNull
  | VBool bool
  | VInt int
  | VStr string
  | VList "val list"
  | VDict "(string \<times> val) list"

type_synonym dict = "(string \<times> val) list"

text \<open>Python's \<^verbatim>\<open>bool(x)\<close>, which decides \<^verbatim>\<open>x or y\<close> and \<^verbatim>\<open>if x\<close>.\<close>

fun truthy :: "val \<Rightarrow> bool" where
  "truthy VNull = False"
| "truthy (VBool b) = b"
| "truthy (VInt i) = (i \<noteq> 0)"
| "truthy (VStr s) = (s \<noteq> [])"
| "truthy (VList xs) = (xs \<noteq> [])"
| "truthy (VDict kvs) = (kvs \<noteq> [])"

text \<open>\<^verbatim>\<open>x or y\<close> on an optional value: \<^verbatim>\<open>d.get(k) or y\<close> when \<^verbatim>\<open>d.get(k)\<close> may be None.\<close>

definition or_else :: "val option \<Rightarrow> val \<Rightarrow> val" where
  "or_else x y = (case x of None \<Rightarrow> y | Some v \<Rightarrow> if truthy v then v else y)"

text \<open>\<^verbatim>\<open>d[k] = v\<close>: an existing key keeps its position, a new key goes last.\<close>

fun dict_set :: "dict \<Rightarrow> string \<Rightarrow> val \<Rightarrow> dict" where
  "dict_set [] k v = [(k, v)]"
| "dict_set ((k', v') # kvs) k v =
     (if k' = k then (k, v) # kvs else (k', v') # dict_set kvs k v)"

text \<open>
  The characters of a string, each as a string of its own: what iterating over a
  \<^verbatim>\<open>str\<close> yields. A byte from 0x80 to 0xBF continues the character before it.
\<close>

definition continuation :: "char \<Rightarrow> bool" where
  "continuation c = (128 \<le> (of_char c :: nat) \<and> (of_char c :: nat) < 192)"

function py_chars :: "string \<Rightarrow> string list" where
  "py_chars [] = []"
| "py_chars (c # cs) =
     (c # takeWhile continuation cs) # py_chars (dropWhile continuation cs)"
  by pat_completeness auto
termination
  by (relation "measure length") (auto simp: length_dropWhile_le less_Suc_eq_le)

section \<open>Errors\<close>

text \<open>
  Every exception the modelled code raises, by what raises it.
  \<^item> \<open>CircularInclude ps\<close>: \<^verbatim>\<open>ValueError("Circular include detected: p1 -> ... -> pn")\<close>;
  \<^item> \<open>FileNotFound p\<close>: \<^verbatim>\<open>FileNotFoundError\<close> from opening \<open>p\<close>;
  \<^item> \<open>DecodeError\<close>: \<^verbatim>\<open>yaml.YAMLError\<close> or \<^verbatim>\<open>json.JSONDecodeError\<close>;
  \<^item> \<open>AttributeError\<close>: \<^verbatim>\<open>.get\<close> or \<^verbatim>\<open>.items\<close> on a value that is not a dict;
  \<^item> \<open>TypeError\<close>: iterating or measuring a value that has no iteration or length,
    joining a path or a string with a value that is not a string;
  \<^item> \<open>PayloadTooLarge n\<close>: \<^verbatim>\<open>ValueError("Payload exceeds relay policy limit of n bytes.")\<close>;
  \<^item> \<open>PayloadNotObject\<close>: \<^verbatim>\<open>TypeError("Payload must be a JSON object.")\<close>;
  \<^item> \<open>NoStackFound persona role\<close>:
    \<^verbatim>\<open>LookupError("No stack found for persona=... role=...")\<close>;
  \<^item> \<open>NotADirectory\<close>, \<open>IsADirectory\<close>: the operating system's errors of those names.
\<close>

type_synonym path = string

datatype error =
    CircularInclude "path list"
  | FileNotFound path
  | DecodeError
  | AttributeError
  | TypeError
  | PayloadTooLarge int
  | PayloadNotObject
  | NoStackFound string string
  | NotADirectory
  | IsADirectory

text \<open>\<^verbatim>\<open>for x in v\<close> and \<^verbatim>\<open>list(v)\<close>: the elements of a list, the characters of a
  string, the keys of a dict, and a TypeError for anything else.\<close>

fun py_iter :: "val \<Rightarrow> error + val list" where
  "py_iter (VList xs) = Inr xs"
| "py_iter (VStr s) = Inr (map VStr (py_chars s))"
| "py_iter (VDict kvs) = Inr (map (\<lambda>kv. VStr (fst kv)) kvs)"
| "py_iter v = Inl TypeError"

section \<open>Redaction filter (codex\_utils.py)\<close>

definition REDACTED :: val where
  "REDACTED = VStr ''***REDACTED***''"

text \<open>
  \<^verbatim>\<open>sensitive = {str(key) for key in (keys_to_redact or [])}\<close>. The keys to redact are
  the list of strings the policy declares; \<^verbatim>\<open>str\<close> is the identity on a string and
  \<^verbatim>\<open>[] or []\<close> is \<^verbatim>\<open>[]\<close>.
\<close>

definition sensitive :: "string list \<Rightarrow> string set" where
  "sensitive keys_to_redact = set keys_to_redact"

text \<open>
  \<^verbatim>\<open>redact(obj, keys_to_redact)\<close>. The loop over \<^verbatim>\<open>obj.items()\<close> stores one entry per
  item into a fresh dict, in the order of the items.
\<close>

fun redact :: "val \<Rightarrow> string list \<Rightarrow> val" where
  "redact (VDict kvs) keys_to_redact =
     VDict (map (\<lambda>(key, v).
                   (key, if key \<in> sensitive keys_to_redact then REDACTED
                         else redact v keys_to_redact)) kvs)"
| "redact (VList xs) keys_to_redact = VList (map (\<lambda>item. redact item keys_to_redact) xs)"
| "redact obj keys_to_redact = obj"

section \<open>Config resolver (codex\_relay.py)\<close>

text \<open>
  \<^verbatim>\<open>_deep_merge(base, incoming)\<close>. The first argument is \<^verbatim>\<open>result\<close>, which starts as a
  copy of \<^verbatim>\<open>base\<close>; each equation is one turn of the loop over \<^verbatim>\<open>incoming.items()\<close>.
\<close>

fun deep_merge :: "dict \<Rightarrow> dict \<Rightarrow> dict" where
  "deep_merge result [] = result"
| "deep_merge result ((key, v) # incoming) =
     deep_merge
       (case (map_of result key, v) of
          (Some (VDict b), VDict i) \<Rightarrow> dict_set result key (VDict (deep_merge b i))
        | _ \<Rightarrow> dict_set result key v)
       incoming"

text \<open>
  What a path names on disk: a file with its decoded YAML or JSON content (\<open>None\<close>
  when the content does not parse), or a directory with its entries in the order
  \<^verbatim>\<open>iterdir\<close> yields them. The names inside one directory are distinct.
\<close>

datatype node = File "val option" | Dir "(string \<times> node) list"

type_synonym dir = "(string \<times> node) list"

text \<open>
  The file system the resolver reads: what each resolved path names. A path with no
  entry does not exist.
\<close>

type_synonym fs = "(path \<times> node) list"

text \<open>\<^verbatim>\<open>_load_yaml(path)\<close> of codex\_relay.py: \<^verbatim>\<open>path.open\<close>, which raises for a path
  that does not exist or names a directory, then \<^verbatim>\<open>yaml.safe_load(handle) or {}\<close>, with
  no check of the shape of the result.\<close>

definition load_yaml :: "fs \<Rightarrow> path \<Rightarrow> error + val" where
  "load_yaml fs path =
     (case map_of fs path of
        None \<Rightarrow> Inl (FileNotFound path)
      | Some (Dir children) \<Rightarrow> Inl IsADirectory
      | Some (File None) \<Rightarrow> Inl DecodeError
      | Some (File (Some data)) \<Rightarrow> Inr (or_else (Some data) (VDict [])))"

text \<open>\<^verbatim>\<open>data.get("include") or []\<close>, then the start of the iteration over it.\<close>

definition includes_of :: "val \<Rightarrow> error + val list" where
  "includes_of data =
     (case data of
        VDict kvs \<Rightarrow> py_iter (or_else (map_of kvs ''include'') (VList []))
      | _ \<Rightarrow> Inl AttributeError)"

text \<open>\<^verbatim>\<open>{k: v for k, v in data.items() if k != "include"}\<close>.\<close>

definition body_of :: "val \<Rightarrow> error + dict" where
  "body_of data =
     (case data of
        VDict kvs \<Rightarrow> Inr (filter (\<lambda>kv. fst kv \<noteq> ''include'') kvs)
      | _ \<Rightarrow> Inl AttributeError)"

text \<open>
  \<^verbatim>\<open>_load_stack_with_includes(path, ancestry)\<close>, with the loop over the includes as
  \<open>merge_includes\<close>. The parameter \<open>rel\<close> is pathlib's part:
  \<open>rel path name\<close> is \<^verbatim>\<open>(path.parent / name).resolve()\<close>. Joining a path with a
  value that is not a string is a TypeError.
\<close>

function load_stack_with_includes ::
    "(path \<Rightarrow> string \<Rightarrow> path) \<Rightarrow> fs \<Rightarrow> path \<Rightarrow> path list \<Rightarrow> error + dict"
  and merge_includes ::
    "(path \<Rightarrow> string \<Rightarrow> path) \<Rightarrow> fs \<Rightarrow> path \<Rightarrow> path list \<Rightarrow> val list \<Rightarrow> dict \<Rightarrow> error + dict"
where
  "load_stack_with_includes rel fs path ancestry =
     (if path \<in> set ancestry then Inl (CircularInclude (ancestry @ [path]))
      else case load_yaml fs path of
        Inl e \<Rightarrow> Inl e
      | Inr data \<Rightarrow>
          (case includes_of data of
             Inl e \<Rightarrow> Inl e
           | Inr includes \<Rightarrow>
               (case merge_includes rel fs path ancestry includes [] of
                  Inl e \<Rightarrow> Inl e
                | Inr merged \<Rightarrow>
                    (case body_of data of
                       Inl e \<Rightarrow> Inl e
                     | Inr body \<Rightarrow> Inr (deep_merge merged body)))))"
| "merge_includes rel fs path ancestry [] merged = Inr merged"
| "merge_includes rel fs path ancestry (include_name # rest) merged =
     (case include_name of
        VStr name \<Rightarrow>
          (case load_stack_with_includes rel fs (rel path name) (ancestry @ [path]) of
             Inl e \<Rightarrow> Inl e
           | Inr sub \<Rightarrow> merge_includes rel fs path ancestry rest (deep_merge merged sub))
      | _ \<Rightarrow> Inl TypeError)"
  by pat_completeness auto
termination
proof (relation "measures
    [\<lambda>x. case x of
           Inl (rel, fs, path, ancestry) \<Rightarrow> card (fst ` set fs - set ancestry)
         | Inr (rel, fs, path, ancestry, includes, merged) \<Rightarrow>
             card (fst ` set fs - set (ancestry @ [path])),
     \<lambda>x. case x of Inl _ \<Rightarrow> 0 | Inr _ \<Rightarrow> 1,
     \<lambda>x. case x of
           Inl _ \<Rightarrow> 0
         | Inr (rel, fs, path, ancestry, includes, merged) \<Rightarrow> length includes]",
    goal_cases)
  case 1
  show ?case by simp
next
  case (2 rel fs path ancestry data incs)
  from 2(2) have "path \<in> fst ` set fs"
    by (cases "map_of fs path") (auto simp: load_yaml_def dest: map_of_SomeD intro: rev_image_eqI)
  with 2(1) have "fst ` set fs - set (ancestry @ [path]) \<subset> fst ` set fs - set ancestry"
    by auto
  then have "card (fst ` set fs - set (ancestry @ [path])) < card (fst ` set fs - set ancestry)"
    by (intro psubset_card_mono) auto
  then show ?case by simp
next
  case 3
  then show ?case by simp
next
  case 4
  then show ?case by simp
qed


declare load_stack_with_includes.simps [simp del]

section \<open>Stack registry (codex\_relay.py)\<close>

text \<open>
  pathlib's part of \<^verbatim>\<open>_discover_stack\<close>: \<^verbatim>\<open>p.resolve()\<close>, \<^verbatim>\<open>p.is_absolute()\<close>,
  \<^verbatim>\<open>BASE_DIR / p\<close> and \<^verbatim>\<open>stacks_dir / p\<close>. A path exists when it resolves to a file or
  a directory of the file system.
\<close>

record pathenv =
  resolve :: "path \<Rightarrow> path"
  is_absolute :: "path \<Rightarrow> bool"
  under_base :: "path \<Rightarrow> path"
  under_stacks :: "path \<Rightarrow> path"

definition exists_file :: "pathenv \<Rightarrow> fs \<Rightarrow> path \<Rightarrow> bool" where
  "exists_file env fs p = (map_of fs (resolve env p) \<noteq> None)"

text \<open>
  One turn of the loop over the candidates: an error, a match to return, or \<open>None\<close> to
  go on. \<^verbatim>\<open>routing.get("persona") == persona\<close> holds only for the string \<^verbatim>\<open>persona\<close>
  itself. The call leaves \<^verbatim>\<open>ancestry\<close> out, which \<^verbatim>\<open>ancestry or []\<close> makes the
  empty list.
\<close>

definition try_candidate ::
    "(path \<Rightarrow> string \<Rightarrow> path) \<Rightarrow> pathenv \<Rightarrow> fs \<Rightarrow> string \<Rightarrow> string \<Rightarrow> path
       \<Rightarrow> error + (dict \<times> path) option" where
  "try_candidate rel env fs persona role candidate =
     (case load_stack_with_includes rel fs (resolve env candidate) [] of
        Inl e \<Rightarrow> Inl e
      | Inr stack \<Rightarrow>
          (case or_else (map_of stack ''routing'') (VDict []) of
             VDict routing \<Rightarrow>
               if map_of routing ''persona'' = Some (VStr persona)
                  \<and> map_of routing ''role'' = Some (VStr role)
               then Inr (Some (stack, resolve env candidate))
               else Inr None
           | _ \<Rightarrow> Inl AttributeError))"

fun scan_stacks ::
    "(path \<Rightarrow> string \<Rightarrow> path) \<Rightarrow> pathenv \<Rightarrow> fs \<Rightarrow> string \<Rightarrow> string \<Rightarrow> path list
       \<Rightarrow> error + dict \<times> path" where
  "scan_stacks rel env fs persona role [] = Inl (NoStackFound persona role)"
| "scan_stacks rel env fs persona role (candidate # rest) =
     (case try_candidate rel env fs persona role candidate of
        Inl e \<Rightarrow> Inl e
      | Inr (Some found) \<Rightarrow> Inr found
      | Inr None \<Rightarrow> scan_stacks rel env fs persona role rest)"

text \<open>
  \<^verbatim>\<open>_discover_stack(persona, role, stacks_dir, explicit_stack)\<close>. \<open>stacks_glob\<close> is
  \<^verbatim>\<open>stacks_dir.glob("*.yaml")\<close> in the order the file system enumerates it; \<^verbatim>\<open>sorted\<close>
  orders the paths of one directory as their file names are ordered.
\<close>

definition discover_stack ::
    "(path \<Rightarrow> string \<Rightarrow> path) \<Rightarrow> pathenv \<Rightarrow> fs \<Rightarrow> string \<Rightarrow> string \<Rightarrow> path list
       \<Rightarrow> path option \<Rightarrow> error + dict \<times> path" where
  "discover_stack rel env fs persona role stacks_glob explicit_stack =
     (case explicit_stack of
        Some explicit \<Rightarrow>
          (let target =
                 (if is_absolute env explicit then explicit
                  else if exists_file env fs (under_base env explicit)
                       then under_base env explicit
                       else under_stacks env explicit)
           in if \<not> exists_file env fs target then Inl (FileNotFound target)
              else case load_stack_with_includes rel fs (resolve env target) [] of
                     Inl e \<Rightarrow> Inl e
                   | Inr stack \<Rightarrow> Inr (stack, resolve env target))
      | None \<Rightarrow> scan_stacks rel env fs persona role (sort stacks_glob))"

section \<open>Payload validation (codex\_relay.py)\<close>

text \<open>\<^verbatim>\<open>payload_str.encode("utf-8")\<close>: a string is represented by its encoding.\<close>

definition encode_utf8 :: "string \<Rightarrow> string" where
  "encode_utf8 s = s"

text \<open>
  \<^verbatim>\<open>_parse_payload(payload_str, max_bytes)\<close>. The JSON parser \<^verbatim>\<open>json.loads\<close> is a
  parameter: it returns the decoded value or raises.
\<close>

definition parse_payload ::
    "(string \<Rightarrow> error + val) \<Rightarrow> string \<Rightarrow> int option \<Rightarrow> error + dict" where
  "parse_payload json_loads payload_str max_bytes =
     (let encoded = encode_utf8 payload_str in
      if (case max_bytes of None \<Rightarrow> False | Some m \<Rightarrow> m \<noteq> 0 \<and> int (length encoded) > m)
      then Inl (PayloadTooLarge (case max_bytes of Some m \<Rightarrow> m | None \<Rightarrow> 0))
      else case json_loads (if payload_str = [] then ''{}'' else payload_str) of
             Inl e \<Rightarrow> Inl e
           | Inr parsed \<Rightarrow>
               (case parsed of VDict d \<Rightarrow> Inr d | _ \<Rightarrow> Inl PayloadNotObject))"

section \<open>Advisory service (codex\_executor.py)\<close>

record advisory =
  summary :: string
  recommended_actions :: "val list"
  confidence :: string
  risk_level :: val

text \<open>\<^verbatim>\<open>_coerce_list(value)\<close>; \<open>str\<close> is Python's \<^verbatim>\<open>str\<close>, a parameter.\<close>

definition coerce_list :: "(val \<Rightarrow> string) \<Rightarrow> val option \<Rightarrow> string list" where
  "coerce_list str v =
     (case v of
        None \<Rightarrow> []
      | Some VNull \<Rightarrow> []
      | Some (VList items) \<Rightarrow> map str items
      | Some x \<Rightarrow> [str x])"

text \<open>The separator of the summary: a space, an em dash (U+2014) and a space.\<close>

definition em_dash_sep :: string where
  "em_dash_sep = [CHR '' '', CHR 0xE2, CHR 0x80, CHR 0x94, CHR '' '']"

text \<open>\<^verbatim>\<open>sep.join(parts)\<close>: a TypeError when a part is not a string.\<close>

fun py_join :: "string \<Rightarrow> val list \<Rightarrow> error + string" where
  "py_join sep [] = Inr []"
| "py_join sep [VStr s] = Inr s"
| "py_join sep (VStr s # rest) =
     (case py_join sep rest of Inl e \<Rightarrow> Inl e | Inr t \<Rightarrow> Inr (s @ sep @ t))"
| "py_join sep (v # rest) = Inl TypeError"

text \<open>\<^verbatim>\<open>CodexExecutor._generate_advisory(payload)\<close>, with \<^verbatim>\<open>self.policies\<close> as
  \<open>policies\<close>.\<close>

definition generate_advisory ::
    "(val \<Rightarrow> string) \<Rightarrow> dict \<Rightarrow> dict \<Rightarrow> error + advisory" where
  "generate_advisory str policies payload =
     (let summary_prefix =
            (case map_of policies ''summary_prefix'' of
               None \<Rightarrow> VStr ''Advisor Insight'' | Some v \<Rightarrow> v);
          objectives = coerce_list str (map_of payload ''objectives'');
          blockers = coerce_list str (map_of payload ''blockers'');
          context = or_else (map_of payload ''context'') (VStr ''No additional context supplied.'');
          summary_parts = [summary_prefix, context]
            @ (case objectives of [] \<Rightarrow> [] | obj # _ \<Rightarrow> [VStr (''Core objective: '' @ obj)])
      in case py_join em_dash_sep summary_parts of
           Inl e \<Rightarrow> Inl e
         | Inr joined \<Rightarrow>
             (case py_iter (case map_of policies ''default_actions'' of
                              None \<Rightarrow> VList [] | Some v \<Rightarrow> v) of
                Inl e \<Rightarrow> Inl e
              | Inr default_actions \<Rightarrow>
                  (let actions1 = default_actions
                         @ (case blockers of [] \<Rightarrow> []
                            | b # _ \<Rightarrow> [VStr (''Resolve blocker: '' @ b)]);
                       actions2 = actions1
                         @ (case objectives of [] \<Rightarrow> []
                            | obj # _ \<Rightarrow> [VStr (''Advance objective: '' @ obj)]);
                       actions3 = (if actions2 = [] then [VStr ''Document a concrete next step.'']
                                   else actions2)
                   in Inr \<lparr> summary = joined,
                            recommended_actions = actions3,
                            confidence = (if blockers \<noteq> [] then ''balanced'' else ''high''),
                            risk_level = or_else (map_of payload ''risk_level'')
                              (VStr (if blockers = [] then ''low'' else ''medium'')) \<rparr>)))"

section \<open>Digest aggregator (codex\_digest\_report.py)\<close>

text \<open>
  The vault is a directory. \<^verbatim>\<open>_load_json(path)\<close>, for the file \<open>name\<close> of the directory
  \<open>d\<close>.
\<close>

definition load_json :: "dir \<Rightarrow> string \<Rightarrow> error + val" where
  "load_json d name =
     (case map_of d name of
        None \<Rightarrow> Inr (VDict [])
      | Some (File None) \<Rightarrow> Inl DecodeError
      | Some (File (Some v)) \<Rightarrow> Inr v
      | Some (Dir children) \<Rightarrow> Inl IsADirectory)"

text \<open>\<^verbatim>\<open>d.get(key, dflt)\<close> and \<^verbatim>\<open>len(v)\<close> on a decoded value.\<close>

definition py_get :: "val \<Rightarrow> string \<Rightarrow> val \<Rightarrow> error + val" where
  "py_get d key dflt =
     (case d of
        VDict kvs \<Rightarrow> Inr (case map_of kvs key of None \<Rightarrow> dflt | Some v \<Rightarrow> v)
      | _ \<Rightarrow> Inl AttributeError)"

fun py_len :: "val \<Rightarrow> error + nat" where
  "py_len (VList xs) = Inr (length xs)"
| "py_len (VStr s) = Inr (length (py_chars s))"
| "py_len (VDict kvs) = Inr (length kvs)"
| "py_len v = Inl TypeError"

text \<open>
  One entry of the digest. \<open>r_run_dir\<close> is the path of the run directory below the
  runs directory, by components (the source stores the whole path as a string).
\<close>

record digest_record =
  r_run_dir :: "string list"
  r_timestamp :: val
  r_persona :: val
  r_role :: val
  r_pipeline :: val
  r_outputs :: val
  r_evaluation_schema :: val
  r_evaluation_criteria :: nat
  r_logger_present :: bool




text \<open>Sequencing of steps that may raise.\<close>

definition and_then :: "error + 'a \<Rightarrow> ('a \<Rightarrow> error + 'b) \<Rightarrow> error + 'b" where
  "and_then step rest = (case step of Inl e \<Rightarrow> Inl e | Inr x \<Rightarrow> rest x)"

text \<open>The body of the second loop of \<^verbatim>\<open>_collect_runs\<close>: the record of one run directory.\<close>

definition digest_of :: "string list \<Rightarrow> dir \<Rightarrow> error + digest_record" where
  "digest_of run_path d =
     and_then (load_json d ''relay.json'') (\<lambda>relay.
     and_then (load_json d ''evaluation.json'') (\<lambda>evaluation.
     and_then (load_json d ''logger.json'') (\<lambda>logger.
     and_then (py_get relay ''timestamp'' VNull) (\<lambda>ts.
     and_then (py_get relay ''persona'' VNull) (\<lambda>pe.
     and_then (py_get relay ''role'' VNull) (\<lambda>ro.
     and_then (py_get relay ''pipeline'' VNull) (\<lambda>pi.
     and_then (py_get relay ''outputs'' (VDict [])) (\<lambda>ou.
     and_then (py_get evaluation ''schema_version'' VNull) (\<lambda>sv.
     and_then (py_get evaluation ''criteria'' (VList [])) (\<lambda>cr.
     and_then (py_len cr) (\<lambda>n.
       Inr \<lparr> r_run_dir = run_path, r_timestamp = ts, r_persona = pe, r_role = ro,
             r_pipeline = pi, r_outputs = ou, r_evaluation_schema = sv,
             r_evaluation_criteria = n, r_logger_present = truthy logger \<rparr>)))))))))))"



section \<open>Config resolver with the ancestry lists in a store\<close>

text \<open>
  Python lists are objects that a callee could change under its caller. To state that
  the resolver does not, this second model keeps every ancestry list in a store: a list
  is known by its address, \<^verbatim>\<open>ancestry + [path]\<close> allocates a new list, and a list could
  only change by a write to its address. The recursion is bounded by fuel, one unit for
  each level of includes; \<open>None\<close> is a run that needs more.
\<close>

type_synonym heap = "path list list"

definition alloc :: "heap \<Rightarrow> path list \<Rightarrow> nat \<times> heap" where
  "alloc h xs = (length h, h @ [xs])"

text \<open>\<^verbatim>\<open>ancestry = ancestry or []\<close>: a new empty list when the argument is None or an
  empty list, the argument's own list otherwise.\<close>

definition or_empty :: "nat option \<Rightarrow> heap \<Rightarrow> nat \<times> heap" where
  "or_empty anc h =
     (case anc of
        None \<Rightarrow> alloc h []
      | Some r \<Rightarrow> if h ! r = [] then alloc h [] else (r, h))"

text \<open>Sequencing of calls that return a result and the store, or raise.\<close>

definition then_h ::
    "((error + 'a) \<times> heap) option \<Rightarrow> ('a \<Rightarrow> heap \<Rightarrow> ((error + 'b) \<times> heap) option)
       \<Rightarrow> ((error + 'b) \<times> heap) option" where
  "then_h step rest =
     (case step of
        None \<Rightarrow> None
      | Some (res, h) \<Rightarrow> (case res of Inl e \<Rightarrow> Some (Inl e, h) | Inr x \<Rightarrow> rest x h))"

text \<open>\<^verbatim>\<open>_load_stack_with_includes(path, ancestry)\<close> and its loop, on the store.\<close>

fun load_h ::
    "nat \<Rightarrow> (path \<Rightarrow> string \<Rightarrow> path) \<Rightarrow> fs \<Rightarrow> path \<Rightarrow> nat option \<Rightarrow> heap
       \<Rightarrow> ((error + dict) \<times> heap) option"
  and merge_h ::
    "nat \<Rightarrow> (path \<Rightarrow> string \<Rightarrow> path) \<Rightarrow> fs \<Rightarrow> path \<Rightarrow> nat \<Rightarrow> val list \<Rightarrow> dict \<Rightarrow> heap
       \<Rightarrow> ((error + dict) \<times> heap) option"
where
  "load_h 0 rel fs path anc h = None"
| "load_h (Suc n) rel fs path anc h =
     (let (a, h1) = or_empty anc h in
      if path \<in> set (h1 ! a)
      then (let (c, h2) = alloc h1 (h1 ! a @ [path])
            in Some (Inl (CircularInclude (h2 ! c)), h2))
      else (case load_yaml fs path of
              Inl e \<Rightarrow> Some (Inl e, h1)
            | Inr data \<Rightarrow>
                (case includes_of data of
                   Inl e \<Rightarrow> Some (Inl e, h1)
                 | Inr includes \<Rightarrow>
                     then_h (merge_h n rel fs path a includes [] h1) (\<lambda>merged h2.
                       (case body_of data of
                          Inl e \<Rightarrow> Some (Inl e, h2)
                        | Inr body \<Rightarrow> Some (Inr (deep_merge merged body), h2))))))"
| "merge_h n rel fs path a [] merged h = Some (Inr merged, h)"
| "merge_h n rel fs path a (include_name # rest) merged h =
     (case include_name of
        VStr name \<Rightarrow>
          (let (a', h1) = alloc h (h ! a @ [path])
           in then_h (load_h n rel fs (rel path name) (Some a') h1) (\<lambda>sub h2.
                merge_h n rel fs path a rest (deep_merge merged sub) h2))
      | _ \<Rightarrow> Some (Inl TypeError, h))"

text \<open>
  The argument \<open>anc\<close> of a call stands for the list \<open>ancestry\<close>: it is None and the list
  is empty, or it is the address of that list. A store is preserved in a later one when
  every list it holds is still there, unchanged.
\<close>

definition anc_ok :: "heap \<Rightarrow> nat option \<Rightarrow> path list \<Rightarrow> bool" where
  "anc_ok h anc ancestry =
     (case anc of
        None \<Rightarrow> ancestry = []
      | Some r \<Rightarrow> r < length h \<and> h ! r = ancestry)"

definition preserved :: "heap \<Rightarrow> heap \<Rightarrow> bool" where
  "preserved h h' = (take (length h) h' = h)"

section \<open>Notions used in the statements\<close>

text \<open>
  What \<^verbatim>\<open>_deep_merge\<close> stores at a key of \<^verbatim>\<open>incoming\<close>: the recursive merge when the
  value already there and the incoming value are both dicts, the incoming value otherwise.
\<close>

definition merge_value :: "val option \<Rightarrow> val \<Rightarrow> val" where
  "merge_value old v =
     (case (old, v) of
        (Some (VDict b), VDict i) \<Rightarrow> VDict (deep_merge b i)
      | _ \<Rightarrow> v)"

definition is_dict :: "val \<Rightarrow> bool" where
  "is_dict v = (case v of VDict kvs \<Rightarrow> True | _ \<Rightarrow> False)"

text \<open>
  The documents that the loop of \<open>path\<close> over its includes starts to resolve: every
  include in order, up to and with the first that fails. A chain of documents follows
  the includes when each is started by the loop of the one before, with the ancestry
  chain it then has.
\<close>

fun started_by :: "(path \<Rightarrow> string \<Rightarrow> path) \<Rightarrow> fs \<Rightarrow> path list \<Rightarrow> path \<Rightarrow> val list \<Rightarrow> path list" where
  "started_by rel fs ancestry path [] = []"
| "started_by rel fs ancestry path (include_name # rest) =
     (case include_name of
        VStr name \<Rightarrow>
          rel path name #
          (case load_stack_with_includes rel fs (rel path name) (ancestry @ [path]) of
             Inl e \<Rightarrow> []
           | Inr sub \<Rightarrow> started_by rel fs ancestry path rest)
      | _ \<Rightarrow> [])"

definition entered :: "(path \<Rightarrow> string \<Rightarrow> path) \<Rightarrow> fs \<Rightarrow> path list \<Rightarrow> path \<Rightarrow> path list" where
  "entered rel fs ancestry path =
     (case load_yaml fs path of
        Inl e \<Rightarrow> []
      | Inr data \<Rightarrow>
          (case includes_of data of
             Inl e \<Rightarrow> []
           | Inr incs \<Rightarrow> started_by rel fs ancestry path incs))"

fun follows :: "(path \<Rightarrow> string \<Rightarrow> path) \<Rightarrow> fs \<Rightarrow> path list \<Rightarrow> path list \<Rightarrow> bool" where
  "follows rel fs ancestry (p # q # ps) =
     (q \<in> set (entered rel fs ancestry p) \<and> follows rel fs (ancestry @ [p]) (q # ps))"
| "follows rel fs ancestry ps = True"






section \<open>Example inputs\<close>

text \<open>Documents of one directory that include each other by file name.\<close>

definition same_dir :: "path \<Rightarrow> string \<Rightarrow> path" where
  "same_dir path name = name"

definition flat_env :: pathenv where
  "flat_env = \<lparr> resolve = (\<lambda>p. p), is_absolute = (\<lambda>p. False),
                under_base = (\<lambda>p. p), under_stacks = (\<lambda>p. p) \<rparr>"

text \<open>\<^verbatim>\<open>a.yaml\<close> includes \<^verbatim>\<open>b.yaml\<close>; both define \<^verbatim>\<open>k\<close> as a string.\<close>

definition fs_ab :: fs where
  "fs_ab =
     [(''a.yaml'', File (Some (VDict [(''include'', VList [VStr ''b.yaml'']),
                                     (''k'', VStr ''body'')]))),
      (''b.yaml'', File (Some (VDict [(''k'', VStr ''include'')])))]"

text \<open>\<^verbatim>\<open>a.yaml\<close> includes \<^verbatim>\<open>b.yaml\<close>; both define \<^verbatim>\<open>k\<close> as a mapping.\<close>

definition fs_mappings :: fs where
  "fs_mappings =
     [(''a.yaml'', File (Some (VDict [(''include'', VList [VStr ''b.yaml'']),
                                     (''k'', VDict [(''a'', VInt 1)])]))),
      (''b.yaml'', File (Some (VDict [(''k'', VDict [(''b'', VInt 2)])])))]"

text \<open>\<^verbatim>\<open>a.yaml\<close> includes \<^verbatim>\<open>base.yaml\<close> and \<^verbatim>\<open>b.yaml\<close>; \<^verbatim>\<open>b.yaml\<close> includes \<^verbatim>\<open>a.yaml\<close>.\<close>

definition fs_cycle :: fs where
  "fs_cycle =
     [(''a.yaml'', File (Some (VDict [(''include'', VList [VStr ''base.yaml'', VStr ''b.yaml'']),
                                     (''k'', VInt 1)]))),
      (''b.yaml'', File (Some (VDict [(''include'', VList [VStr ''a.yaml'']), (''k'', VInt 2)]))),
      (''base.yaml'', File (Some (VDict [(''k'', VInt 0)])))]"

text \<open>\<^verbatim>\<open>a.yaml\<close> includes \<^verbatim>\<open>missing.yaml\<close>, which does not exist, and then \<^verbatim>\<open>b.yaml\<close>;
  \<^verbatim>\<open>b.yaml\<close> includes \<^verbatim>\<open>a.yaml\<close>.\<close>

definition fs_cycle_missing :: fs where
  "fs_cycle_missing =
     [(''a.yaml'', File (Some (VDict [(''include'', VList [VStr ''missing.yaml'', VStr ''b.yaml''])]))),
      (''b.yaml'', File (Some (VDict [(''include'', VList [VStr ''a.yaml''])])))]"

text \<open>Three stacks: \<^verbatim>\<open>a.yaml\<close> for another role, \<^verbatim>\<open>b.yaml\<close> and \<^verbatim>\<open>c.yaml\<close> for role r.\<close>

definition routing_of :: "string \<Rightarrow> string \<Rightarrow> string \<times> val" where
  "routing_of p r = (''routing'', VDict [(''persona'', VStr p), (''role'', VStr r)])"

definition fs_stacks :: fs where
  "fs_stacks =
     [(''c.yaml'', File (Some (VDict [routing_of ''p'' ''r'', (''meta'', VStr ''c'')]))),
      (''a.yaml'', File (Some (VDict [routing_of ''p'' ''other'', (''meta'', VStr ''a'')]))),
      (''b.yaml'', File (Some (VDict [routing_of ''p'' ''r'', (''meta'', VStr ''b'')])))]"

text \<open>The same, but \<^verbatim>\<open>a.yaml\<close> includes a file that does not exist.\<close>

definition fs_broken_first :: fs where
  "fs_broken_first =
     [(''c.yaml'', File (Some (VDict [routing_of ''p'' ''r'', (''meta'', VStr ''c'')]))),
      (''a.yaml'', File (Some (VDict [(''include'', VList [VStr ''missing.yaml'']),
                                     routing_of ''p'' ''other'']))),
      (''b.yaml'', File (Some (VDict [routing_of ''p'' ''r'', (''meta'', VStr ''b'')])))]"

text \<open>A JSON parser that rejects every input, and \<^verbatim>\<open>str\<close> on strings.\<close>

definition failing_loads :: "string \<Rightarrow> error + val" where
  "failing_loads s = Inl DecodeError"

definition str_of :: "val \<Rightarrow> string" where
  "str_of v = (case v of VStr s \<Rightarrow> s | _ \<Rightarrow> ''?'')"




definition record_of :: "string list \<Rightarrow> string \<Rightarrow> digest_record" where
  "record_of run_path who =
     \<lparr> r_run_dir = run_path, r_timestamp = VNull, r_persona = VStr who, r_role = VNull,
       r_pipeline = VNull, r_outputs = VDict [], r_evaluation_schema = VNull,
       r_evaluation_criteria = 0, r_logger_present = False \<rparr>"

text \<open>A run directory with the log the logger stage writes, and run directories whose
  \<^verbatim>\<open>logger.json\<close> holds the number 0 and the value false.\<close>

definition logged_run :: dir where
  "logged_run =
     [(''relay.json'', File (Some (VDict [(''persona'', VStr ''p'')]))),
      (''logger.json'', File (Some (VDict [(''persona'', VStr ''p'')])))]"

definition zero_log :: dir where
  "zero_log =
     [(''relay.json'', File (Some (VDict [(''persona'', VStr ''p'')]))),
      (''logger.json'', File (Some (VInt 0)))]"

definition false_log :: dir where
  "false_log =
     [(''relay.json'', File (Some (VDict [(''persona'', VStr ''p'')]))),
      (''logger.json'', File (Some (VBool False)))]"

text \<open>A run directory whose log and evaluation are empty JSON objects.\<close>

definition empty_artifacts :: dir where
  "empty_artifacts =
     [(''relay.json'', File (Some (VDict [(''persona'', VStr ''p'')]))),
      (''evaluation.json'', File (Some (VDict []))),
      (''logger.json'', File (Some (VDict [])))]"


section \<open>Redaction\<close>

lemma redact_REDACTED: "redact REDACTED keys = REDACTED"
  by (simp add: REDACTED_def)

lemma redact_idem: "redact (redact obj keys) keys = redact obj keys"
proof (induction obj keys rule: redact.induct)
  case (1 kvs keys)
  then show ?case by (auto simp: redact_REDACTED)
next
  case (2 xs keys)
  then show ?case by simp
qed simp_all

text \<open>
  C6. \<^verbatim>\<open>redact\<close> puts the marker \<^verbatim>\<open>***REDACTED***\<close> at every mapping key that is one
  of the sensitive keys, without looking into the value it replaces, and redacts the
  values at the other keys; it redacts a sequence element by element; it returns a scalar
  as it is. Redacting twice with the same keys is redacting once. On
  \<^verbatim>\<open>{"token":"abc","nested":{"token":"def","keep":1}}\<close> with the key \<^verbatim>\<open>token\<close> it
  gives \<^verbatim>\<open>{"token":"***REDACTED***","nested":{"token":"***REDACTED***","keep":1}}\<close>.
\<close>

theorem redact_spec:
  "redact (VDict kvs) keys =
     VDict (map (\<lambda>(k, v). (k, if k \<in> set keys then VStr ''***REDACTED***''
                                 else redact v keys)) kvs)
   \<and> redact (VList xs) keys = VList (map (\<lambda>x. redact x keys) xs)
   \<and> redact VNull keys = VNull \<and> redact (VBool b) keys = VBool b
   \<and> redact (VInt i) keys = VInt i \<and> redact (VStr s) keys = VStr s
   \<and> redact (redact obj keys) keys = redact obj keys
   \<and> redact (VDict [(''token'', VStr ''abc''),
                     (''nested'', VDict [(''token'', VStr ''def''), (''keep'', VInt 1)])])
             [''token'']
       = VDict [(''token'', VStr ''***REDACTED***''),
                (''nested'', VDict [(''token'', VStr ''***REDACTED***''), (''keep'', VInt 1)])]"
  by (auto simp: redact_idem sensitive_def REDACTED_def)

section \<open>Deep merge and include resolution\<close>

lemma map_of_dict_set: "map_of (dict_set d k v) k' = (if k' = k then Some v else map_of d k')"
  by (induction d) auto

lemma deep_merge_step:
  "deep_merge result ((key, v) # incoming) =
     deep_merge (dict_set result key (merge_value (map_of result key) v)) incoming"
  by (simp add: merge_value_def split: option.splits val.splits)

lemma map_of_deep_merge:
  "distinct (map fst incoming) \<Longrightarrow>
   map_of (deep_merge base incoming) k =
     (case map_of incoming k of
        None \<Rightarrow> map_of base k
      | Some v \<Rightarrow> Some (merge_value (map_of base k) v))"
proof (induction incoming arbitrary: base)
  case Nil
  then show ?case by simp
next
  case (Cons kv incoming)
  obtain key v where kv: "kv = (key, v)" by (cases kv)
  from Cons.prems kv have d: "distinct (map fst incoming)" and nk: "key \<notin> fst ` set incoming"
    by auto
  have nk': "map_of incoming key = None"
    using nk by (simp add: map_of_eq_None_iff)
  show ?case
    unfolding kv deep_merge_step
    using nk' by (auto simp: Cons.IH[OF d] map_of_dict_set split: option.splits)
qed

lemma merge_value_not_dict: "\<not> is_dict v \<Longrightarrow> merge_value old v = v"
  by (cases v) (simp_all add: merge_value_def is_dict_def split: option.splits val.splits)

lemma merge_includes_ok:
  "list_all2 (\<lambda>name sub.
      load_stack_with_includes rel fs (rel path name) (ancestry @ [path]) = Inr sub) names subs
   \<Longrightarrow> merge_includes rel fs path ancestry (map VStr names) merged
         = Inr (foldl deep_merge merged subs)"
  by (induction names subs arbitrary: merged rule: list_all2_induct) auto

lemma map_of_filter_eq: "map_of (filter (\<lambda>kv. fst kv \<noteq> k0) kvs) k0 = None"
  by (induction kvs) auto

lemma map_of_filter_neq:
  "k \<noteq> k0 \<Longrightarrow> map_of (filter (\<lambda>kv. fst kv \<noteq> k0) kvs) k = map_of kvs k"
  by (induction kvs) auto

lemma load_plain:
  assumes "map_of fs path = Some (File (Some (VDict kvs)))" and "kvs \<noteq> []"
    and "map_of kvs ''include'' = None" and "path \<notin> set ancestry"
  shows "load_stack_with_includes rel fs path ancestry = Inr (deep_merge [] kvs)"
proof -
  have "filter (\<lambda>kv. fst kv \<noteq> ''include'') kvs = kvs"
    using assms(3) by (induction kvs) (auto split: if_splits)
  then show ?thesis
    using assms
    by (simp add: load_stack_with_includes.simps load_yaml_def or_else_def includes_of_def
          body_of_def)
qed

lemma load_fs_ab_b:
  "load_stack_with_includes same_dir fs_ab ''b.yaml'' [''a.yaml''] = Inr [(''k'', VStr ''include'')]"
  by (simp add: load_plain[of _ _ "[(''k'', VStr ''include'')]"] fs_ab_def)

lemma load_fs_mappings_b:
  "load_stack_with_includes same_dir fs_mappings ''b.yaml'' [''a.yaml'']
     = Inr [(''k'', VDict [(''b'', VInt 2)])]"
  by (simp add: load_plain[of _ _ "[(''k'', VDict [(''b'', VInt 2)])]"] fs_mappings_def)

text \<open>
  C1, as amended. When a document is a mapping with an include list and each include
  resolves, the document resolves to the merge of its own body, without the
  \<^verbatim>\<open>include\<close> key, into the left-to-right merge of the resolved includes. For every
  key of the body the resolved value is the body's value whenever that value is not a
  mapping; when it is a mapping and the includes give a mapping for the key too, the
  resolved value is the recursive merge of the two, the body's entries going in last.
\<close>

theorem body_merged_last:
  assumes "path \<notin> set ancestry"
    and "map_of fs path = Some (File (Some (VDict kvs)))"
    and "distinct (map fst kvs)"
    and "map_of kvs ''include'' = Some (VList (map VStr names))"
    and "list_all2 (\<lambda>name sub.
            load_stack_with_includes rel fs (rel path name) (ancestry @ [path]) = Inr sub)
          names subs"
    and "merged = foldl deep_merge [] subs"
    and "body = filter (\<lambda>kv. fst kv \<noteq> ''include'') kvs"
  shows "load_stack_with_includes rel fs path ancestry = Inr (deep_merge merged body)
       \<and> (\<forall>k v. map_of body k = Some v \<longrightarrow>
            map_of (deep_merge merged body) k = Some (merge_value (map_of merged k) v))
       \<and> (\<forall>k v. map_of body k = Some v \<and> \<not> is_dict v \<longrightarrow>
            map_of (deep_merge merged body) k = Some v)"
proof -
  from assms(4) have ne: "kvs \<noteq> []" by auto
  have ly: "load_yaml fs path = Inr (VDict kvs)"
    using assms(2) ne by (simp add: load_yaml_def or_else_def)
  have inc: "includes_of (VDict kvs) = Inr (map VStr names)"
    using assms(4) by (cases names) (simp_all add: includes_of_def or_else_def)
  have mi: "merge_includes rel fs path ancestry (map VStr names) [] = Inr merged"
    unfolding assms(6) by (rule merge_includes_ok[OF assms(5)])
  have bd: "body_of (VDict kvs) = Inr body"
    by (simp add: body_of_def assms(7))
  have 1: "load_stack_with_includes rel fs path ancestry = Inr (deep_merge merged body)"
    using assms(1) ly inc mi bd by (simp add: load_stack_with_includes.simps)
  have dist: "distinct (map fst body)"
    using assms(3) by (simp add: assms(7) distinct_map_filter)
  have 2: "map_of (deep_merge merged body) k = Some (merge_value (map_of merged k) v)"
    if "map_of body k = Some v" for k v
    using that by (simp add: map_of_deep_merge[OF dist])
  have 3: "map_of (deep_merge merged body) k = Some v"
    if "map_of body k = Some v \<and> \<not> is_dict v" for k v
    using that 2[of k v] by (simp add: merge_value_not_dict)
  from 1 2 3 show ?thesis by blast
qed

text \<open>
  The instance of the specification: \<^verbatim>\<open>a.yaml\<close> includes \<^verbatim>\<open>b.yaml\<close>, the body says
  \<^verbatim>\<open>k: body\<close>, the include says \<^verbatim>\<open>k: include\<close>, and \<^verbatim>\<open>k\<close> resolves to \<^verbatim>\<open>body\<close>.
\<close>

theorem body_merged_last_witness:
  "load_stack_with_includes same_dir fs_ab ''a.yaml'' [] = Inr [(''k'', VStr ''body'')]
   \<and> map_of [(''k'', VStr ''body'')] ''k'' = Some (VStr ''body'')"
proof -
  have subs: "list_all2 (\<lambda>name sub.
      load_stack_with_includes same_dir fs_ab (same_dir ''a.yaml'' name) ([] @ [''a.yaml'']) = Inr sub)
      [''b.yaml''] [[(''k'', VStr ''include'')]]"
    by (simp add: same_dir_def load_fs_ab_b)
  have "load_stack_with_includes same_dir fs_ab ''a.yaml'' []
          = Inr (deep_merge (foldl deep_merge [] [[(''k'', VStr ''include'')]])
                   (filter (\<lambda>kv. fst kv \<noteq> ''include'')
                      [(''include'', VList [VStr ''b.yaml'']), (''k'', VStr ''body'')]))"
    using body_merged_last[of "''a.yaml''" "[]" fs_ab
        "[(''include'', VList [VStr ''b.yaml'']), (''k'', VStr ''body'')]" "[''b.yaml'']"
        same_dir "[[(''k'', VStr ''include'')]]", OF _ _ _ _ subs refl refl]
    by (simp add: fs_ab_def)
  then show ?thesis by simp
qed

text \<open>
  The claim as stated fails where the body and an include both give a mapping for a key:
  with the body \<^verbatim>\<open>k: {a: 1}\<close> and the include \<^verbatim>\<open>k: {b: 2}\<close> the document resolves to
  \<^verbatim>\<open>k: {b: 2, a: 1}\<close>, which keeps the entry of the include and is not the body's value.
\<close>

theorem body_mapping_merged_not_replaced:
  "load_stack_with_includes same_dir fs_mappings ''a.yaml'' []
     = Inr [(''k'', VDict [(''b'', VInt 2), (''a'', VInt 1)])]
   \<and> map_of [(''k'', VDict [(''b'', VInt 2), (''a'', VInt 1)])] ''k''
       \<noteq> map_of [(''k'', VDict [(''a'', VInt 1)])] ''k''"
proof -
  have ly: "load_yaml fs_mappings ''a.yaml'' =
      Inr (VDict [(''include'', VList [VStr ''b.yaml'']), (''k'', VDict [(''a'', VInt 1)])])"
    by (simp add: load_yaml_def fs_mappings_def or_else_def)
  have "load_stack_with_includes same_dir fs_mappings ''a.yaml'' []
     = Inr [(''k'', VDict [(''b'', VInt 2), (''a'', VInt 1)])]"
    by (simp add: load_stack_with_includes.simps[of same_dir fs_mappings "''a.yaml''" "[]"] ly
          includes_of_def or_else_def body_of_def same_dir_def load_fs_mappings_b)
  then show ?thesis by simp
qed


section \<open>Cycles\<close>

lemma cycle_immediate:
  "path \<in> set ancestry \<Longrightarrow>
   load_stack_with_includes rel fs path ancestry = Inl (CircularInclude (ancestry @ [path]))"
  by (simp add: load_stack_with_includes.simps)

lemma started_by_fails:
  "\<lbrakk> q \<in> set (started_by rel fs ancestry p incs);
     load_stack_with_includes rel fs q (ancestry @ [p]) = Inl e \<rbrakk>
   \<Longrightarrow> merge_includes rel fs p ancestry incs merged = Inl e"
proof (induction incs arbitrary: merged)
  case Nil
  then show ?case by simp
next
  case (Cons inc rest)
  show ?case
  proof (cases inc)
    case (VStr name)
    show ?thesis
    proof (cases "load_stack_with_includes rel fs (rel p name) (ancestry @ [p])")
      case (Inl e')
      with Cons.prems VStr have "q = rel p name" by simp
      with Cons.prems(2) VStr show ?thesis by simp
    next
      case (Inr sub)
      with Cons.prems VStr have "q \<in> set (started_by rel fs ancestry p rest)"
        by auto
      from Cons.IH[OF this Cons.prems(2)] VStr Inr show ?thesis by simp
    qed
  qed (use Cons.prems in simp_all)
qed

lemma entered_fails:
  assumes "q \<in> set (entered rel fs ancestry p)" and "p \<notin> set ancestry"
    and "load_stack_with_includes rel fs q (ancestry @ [p]) = Inl e"
  shows "load_stack_with_includes rel fs p ancestry = Inl e"
proof -
  from assms(1) obtain data where ly: "load_yaml fs p = Inr data"
    by (cases "load_yaml fs p") (simp_all add: entered_def)
  with assms(1) obtain incs where inc: "includes_of data = Inr incs"
    by (cases "includes_of data") (simp_all add: entered_def)
  with assms(1) ly have "q \<in> set (started_by rel fs ancestry p incs)"
    by (simp add: entered_def)
  from started_by_fails[OF this assms(3)] assms(2) ly inc show ?thesis
    by (simp add: load_stack_with_includes.simps)
qed

lemma cycle_chain:
  "\<lbrakk> follows rel fs ancestry (p # ps @ [q]); distinct (ancestry @ p # ps);
     q \<in> set (ancestry @ p # ps) \<rbrakk>
   \<Longrightarrow> load_stack_with_includes rel fs p ancestry
         = Inl (CircularInclude (ancestry @ p # ps @ [q]))"
proof (induction ps arbitrary: p ancestry)
  case Nil
  then have en: "q \<in> set (entered rel fs ancestry p)" and np: "p \<notin> set ancestry"
    and qin: "q \<in> set (ancestry @ [p])" by auto
  show ?case
    using entered_fails[OF en np cycle_immediate[OF qin]] by simp
next
  case (Cons p' ps)
  then have en: "p' \<in> set (entered rel fs ancestry p)" and np: "p \<notin> set ancestry"
    and fo: "follows rel fs (ancestry @ [p]) (p' # ps @ [q])"
    and di: "distinct ((ancestry @ [p]) @ p' # ps)"
    and qin: "q \<in> set ((ancestry @ [p]) @ p' # ps)" by auto
  show ?case
    using entered_fails[OF en np Cons.IH[OF fo di qin]] by simp
qed

lemma load_yaml_no_cycle: "load_yaml fs path \<noteq> Inl (CircularInclude cyc)"
  by (simp add: load_yaml_def split: option.splits node.splits)

lemma py_iter_no_cycle: "py_iter v \<noteq> Inl (CircularInclude cyc)"
  by (cases v) simp_all

lemma includes_of_no_cycle: "includes_of data \<noteq> Inl (CircularInclude cyc)"
  by (cases data) (simp_all add: includes_of_def py_iter_no_cycle)

lemma body_of_no_cycle: "body_of data \<noteq> Inl (CircularInclude cyc)"
  by (cases data) (simp_all add: body_of_def)

lemma cycle_error_shape:
  "(load_stack_with_includes rel fs path ancestry = Inl (CircularInclude cyc) \<longrightarrow>
      (\<exists>mid. cyc = ancestry @ path # mid \<and> last cyc \<in> set (butlast cyc)
         \<and> (distinct ancestry \<longrightarrow> distinct (butlast cyc))))"
  "(merge_includes rel fs path ancestry incs merged = Inl (CircularInclude cyc) \<longrightarrow>
      path \<notin> set ancestry \<longrightarrow>
      (\<exists>mid. cyc = ancestry @ path # mid \<and> last cyc \<in> set (butlast cyc)
         \<and> (distinct ancestry \<longrightarrow> distinct (butlast cyc))))"
proof (induction rel fs path ancestry and rel fs path ancestry incs merged
       rule: load_stack_with_includes_merge_includes.induct)
  case (1 rel fs path ancestry)
  show ?case
  proof (cases "path \<in> set ancestry")
    case True
    then show ?thesis
      by (auto simp: load_stack_with_includes.simps)
  next
    case False
    show ?thesis
      using False 1
      by (auto simp: load_stack_with_includes.simps[of rel fs path ancestry]
            load_yaml_no_cycle includes_of_no_cycle body_of_no_cycle split: sum.splits)
  qed
next
  case (2 rel fs path ancestry merged)
  then show ?case by simp
next
  case (3 rel fs path ancestry include_name rest merged)
  show ?case
  proof (cases include_name)
    case (VStr name)
    show ?thesis
    proof (cases "load_stack_with_includes rel fs (rel path name) (ancestry @ [path])")
      case (Inl e)
      with VStr 3(1)[OF VStr] show ?thesis by auto
    next
      case (Inr sub)
      with VStr 3(2)[OF VStr Inr] show ?thesis by simp
    qed
  qed simp_all
qed

text \<open>
  C2, as amended. Resolving a path that is already on the ancestry chain fails with the
  cycle error, whose message is the chain followed by the path. In an include graph with
  a cycle, resolution fails with the cycle error that lists the whole chain whenever the
  includes, resolved in the declared order, lead from a document back to a document
  already on the chain or to itself (A includes B includes A) with no include failing
  before. The failure of an include that the loop of a document starts to resolve is the
  failure of that document: an include that fails before the one that leads back decides
  the error. Every cycle error lists the ancestry chain and the documents entered after
  it, ends with a document that occurs earlier in the list, and repeats no other
  document when the chain given had none repeated. The resolver is a total function: its
  recursion is well-founded on the number of documents of the file system that are not on
  the chain.
\<close>

theorem cycle_detected:
  "(path \<in> set ancestry \<longrightarrow>
      load_stack_with_includes rel fs path ancestry = Inl (CircularInclude (ancestry @ [path])))
   \<and> (follows rel fs ancestry (p # ps @ [q]) \<and> distinct (ancestry @ p # ps)
        \<and> q \<in> set (ancestry @ p # ps)
        \<longrightarrow> load_stack_with_includes rel fs p ancestry
              = Inl (CircularInclude (ancestry @ p # ps @ [q])))
   \<and> (load_stack_with_includes rel fs path ancestry = Inl (CircularInclude cyc) \<longrightarrow>
        (\<exists>mid. cyc = ancestry @ path # mid \<and> last cyc \<in> set (butlast cyc)
           \<and> (distinct ancestry \<longrightarrow> distinct (butlast cyc))))
   \<and> (inc \<in> set (entered rel fs ancestry path) \<and> path \<notin> set ancestry
        \<and> load_stack_with_includes rel fs inc (ancestry @ [path]) = Inl e
        \<longrightarrow> load_stack_with_includes rel fs path ancestry = Inl e)"
  using cycle_immediate[of path ancestry rel fs] cycle_chain[of rel fs ancestry p ps q]
    cycle_error_shape(1)[of rel fs path ancestry cyc]
    entered_fails[of inc rel fs ancestry path e]
  by blast

lemma load_missing:
  "load_stack_with_includes same_dir fs_cycle_missing ''missing.yaml'' [''a.yaml'']
     = Inl (FileNotFound ''missing.yaml'')"
  by (simp add: load_stack_with_includes.simps load_yaml_def fs_cycle_missing_def)

lemma entered_missing:
  "entered same_dir fs_cycle_missing [] ''a.yaml'' = [''missing.yaml'']"
proof -
  have "load_yaml fs_cycle_missing ''a.yaml'' =
      Inr (VDict [(''include'', VList [VStr ''missing.yaml'', VStr ''b.yaml''])])"
    by (simp add: load_yaml_def fs_cycle_missing_def or_else_def)
  then show ?thesis
    using load_missing
    by (simp add: entered_def includes_of_def or_else_def same_dir_def)
qed

lemma load_cycle_base:
  "load_stack_with_includes same_dir fs_cycle ''base.yaml'' [''a.yaml''] = Inr [(''k'', VInt 0)]"
  by (simp add: load_stack_with_includes.simps load_yaml_def fs_cycle_def or_else_def
        includes_of_def body_of_def)

lemma entered_cycle_a:
  "entered same_dir fs_cycle [] ''a.yaml'' = [''base.yaml'', ''b.yaml'']"
proof -
  have "load_yaml fs_cycle ''a.yaml'' =
      Inr (VDict [(''include'', VList [VStr ''base.yaml'', VStr ''b.yaml'']), (''k'', VInt 1)])"
    by (simp add: load_yaml_def fs_cycle_def or_else_def)
  moreover have "load_stack_with_includes same_dir fs_cycle ''b.yaml'' [''a.yaml'']
      = Inl (CircularInclude [''a.yaml'', ''b.yaml'', ''a.yaml''])"
    by (simp add: load_stack_with_includes.simps load_yaml_def fs_cycle_def or_else_def
          includes_of_def same_dir_def)
  ultimately show ?thesis
    by (simp add: entered_def includes_of_def or_else_def same_dir_def load_cycle_base)
qed

lemma entered_cycle_b:
  "entered same_dir fs_cycle [''a.yaml''] ''b.yaml'' = [''a.yaml'']"
  by (simp add: entered_def load_yaml_def fs_cycle_def or_else_def includes_of_def same_dir_def
        load_stack_with_includes.simps)

theorem cycle_detected_witness:
  "load_stack_with_includes same_dir fs_cycle ''a.yaml'' [''a.yaml'', ''b.yaml'']
     = Inl (CircularInclude [''a.yaml'', ''b.yaml'', ''a.yaml''])
   \<and> load_stack_with_includes same_dir fs_cycle ''a.yaml'' []
       = Inl (CircularInclude [''a.yaml'', ''b.yaml'', ''a.yaml''])
   \<and> last [''a.yaml'', ''b.yaml'', ''a.yaml''] \<in> set (butlast [''a.yaml'', ''b.yaml'', ''a.yaml''])
   \<and> distinct (butlast [''a.yaml'', ''b.yaml'', ''a.yaml''])
   \<and> load_stack_with_includes same_dir fs_cycle_missing ''a.yaml'' []
       = Inl (FileNotFound ''missing.yaml'')"
proof -
  have 1: "load_stack_with_includes same_dir fs_cycle ''a.yaml'' [''a.yaml'', ''b.yaml'']
     = Inl (CircularInclude [''a.yaml'', ''b.yaml'', ''a.yaml''])"
    using cycle_detected[of "''a.yaml''" "[''a.yaml'', ''b.yaml'']" same_dir fs_cycle]
    by simp
  have 2: "load_stack_with_includes same_dir fs_cycle ''a.yaml'' []
       = Inl (CircularInclude [''a.yaml'', ''b.yaml'', ''a.yaml''])"
    using cycle_detected[of _ "[]" same_dir fs_cycle "''a.yaml''" "[''b.yaml'']" "''a.yaml''"]
    by (simp add: entered_cycle_a entered_cycle_b)
  have 3: "load_stack_with_includes same_dir fs_cycle_missing ''a.yaml'' []
       = Inl (FileNotFound ''missing.yaml'')"
    using cycle_detected[of "''a.yaml''" "[]" same_dir fs_cycle_missing _ _ _ _
        "''missing.yaml''" "FileNotFound ''missing.yaml''"]
    by (simp add: entered_missing load_missing)
  from 1 2 3 show ?thesis by simp
qed

text \<open>
  The claim as stated fails on a cyclic include graph in which an include fails before
  the one that leads back: \<^verbatim>\<open>a.yaml\<close> includes \<^verbatim>\<open>missing.yaml\<close> and \<^verbatim>\<open>b.yaml\<close>, \<^verbatim>\<open>b.yaml\<close>
  includes \<^verbatim>\<open>a.yaml\<close>, and resolving \<^verbatim>\<open>a.yaml\<close> fails with the error of the missing file,
  not with the cycle error.
\<close>

theorem cycle_behind_missing_include:
  "load_stack_with_includes same_dir fs_cycle_missing ''b.yaml'' [''a.yaml'']
     = Inl (CircularInclude [''a.yaml'', ''b.yaml'', ''a.yaml''])
   \<and> load_stack_with_includes same_dir fs_cycle_missing ''a.yaml'' []
       = Inl (FileNotFound ''missing.yaml'')
   \<and> FileNotFound ''missing.yaml'' \<noteq> CircularInclude [''a.yaml'', ''b.yaml'', ''a.yaml'']"
proof -
  have b: "load_stack_with_includes same_dir fs_cycle_missing ''b.yaml'' [''a.yaml'']
     = Inl (CircularInclude [''a.yaml'', ''b.yaml'', ''a.yaml''])"
    by (simp add: load_stack_with_includes.simps load_yaml_def fs_cycle_missing_def or_else_def
          includes_of_def same_dir_def)
  have ly: "load_yaml fs_cycle_missing ''a.yaml'' =
      Inr (VDict [(''include'', VList [VStr ''missing.yaml'', VStr ''b.yaml''])])"
    by (simp add: load_yaml_def fs_cycle_missing_def or_else_def)
  have "load_stack_with_includes same_dir fs_cycle_missing ''a.yaml'' []
       = Inl (FileNotFound ''missing.yaml'')"
    by (simp add: load_stack_with_includes.simps[of same_dir fs_cycle_missing "''a.yaml''" "[]"]
          ly includes_of_def or_else_def same_dir_def load_missing)
  with b show ?thesis by simp
qed

section \<open>Documents that are not mappings\<close>

text \<open>
  C4. The resolver has no error for a document that is not a mapping. A document whose
  content is a non-empty list or a scalar fails with the AttributeError of
  \<^verbatim>\<open>data.get("include")\<close>, at the top and as an include alike, and an empty list, an
  empty string, zero, false and null are taken for the empty mapping and resolve.
  \<^verbatim>\<open>load_yaml\<close> of codex\_utils.py raises its TypeError (a mapping is required at the top
  level) in all of these cases.
\<close>

theorem non_mapping_document_no_shape_error:
  "load_stack_with_includes same_dir [(''a.yaml'', File (Some (VList [VStr ''x''])))] ''a.yaml'' []
     = Inl AttributeError
   \<and> load_stack_with_includes same_dir
        [(''a.yaml'', File (Some (VDict [(''include'', VList [VStr ''b.yaml''])]))),
         (''b.yaml'', File (Some (VStr ''scalar'')))] ''a.yaml'' []
       = Inl AttributeError
   \<and> load_stack_with_includes same_dir [(''a.yaml'', File (Some (VList [])))] ''a.yaml'' []
       = Inr []"
  by (simp add: load_stack_with_includes.simps load_yaml_def or_else_def includes_of_def
        body_of_def same_dir_def)

section \<open>Payload size\<close>

text \<open>
  C3. When a positive byte ceiling is configured and the UTF-8 encoded payload is longer
  than the ceiling, \<^verbatim>\<open>_parse_payload\<close> fails with the payload-too-large error, whatever
  the JSON parser would do with the payload: the parser is not consulted.
\<close>

theorem oversize_payload_rejected_before_parsing:
  assumes "max_bytes = Some m" and "0 < m" and "int (length (encode_utf8 payload_str)) > m"
  shows "parse_payload json_loads payload_str max_bytes = Inl (PayloadTooLarge m)"
  using assms by (simp add: parse_payload_def Let_def)

theorem oversize_payload_rejected_before_parsing_witness:
  "(0::int) < 4 \<and> int (length (encode_utf8 ''{\"a\":1}'')) > 4
   \<and> parse_payload failing_loads ''{\"a\":1}'' (Some 4) = Inl (PayloadTooLarge 4)"
  using oversize_payload_rejected_before_parsing [of "Some 4" 4 "''{\"a\":1}''" failing_loads]
  by (simp add: encode_utf8_def)

section \<open>Advisory\<close>

lemma generate_advisory_fields:
  assumes "generate_advisory str policies payload = Inr adv"
  shows "risk_level adv = or_else (map_of payload ''risk_level'')
           (VStr (if coerce_list str (map_of payload ''blockers'') = [] then ''low''
                  else ''medium''))"
    and "confidence adv =
           (if coerce_list str (map_of payload ''blockers'') \<noteq> [] then ''balanced'' else ''high'')"
  using assms
  by (auto simp: generate_advisory_def Let_def split: sum.splits)

text \<open>
  C5, as amended. In every advisory the generator returns, the risk level is the
  payload's \<^verbatim>\<open>risk_level\<close> when that field is present and truthy (not null, false,
  zero or empty); otherwise it is \<^verbatim>\<open>low\<close> when the normalized blockers are empty and
  \<^verbatim>\<open>medium\<close> when they are not. The confidence is \<^verbatim>\<open>balanced\<close> when there is a blocker
  and \<^verbatim>\<open>high\<close> when there is none.
\<close>

theorem advisory_risk_and_confidence:
  assumes "generate_advisory str policies payload = Inr adv"
    and "blockers = coerce_list str (map_of payload ''blockers'')"
  shows "risk_level adv =
           (case map_of payload ''risk_level'' of
              Some v \<Rightarrow> if truthy v then v
                        else VStr (if blockers = [] then ''low'' else ''medium'')
            | None \<Rightarrow> VStr (if blockers = [] then ''low'' else ''medium''))
       \<and> confidence adv = (if blockers \<noteq> [] then ''balanced'' else ''high'')"
  using generate_advisory_fields[OF assms(1)] assms(2)
  by (simp add: or_else_def split: option.splits)

lemma advisory_with_blocker:
  "generate_advisory str_of [] [(''risk_level'', VStr ''severe''), (''blockers'', VStr ''legal'')]
     = Inr \<lparr> summary = ''Advisor Insight'' @ em_dash_sep @ ''No additional context supplied.'',
             recommended_actions = [VStr ''Resolve blocker: legal''],
             confidence = ''balanced'', risk_level = VStr ''severe'' \<rparr>"
  by (simp add: generate_advisory_def Let_def coerce_list_def or_else_def str_of_def)

theorem advisory_risk_and_confidence_witness:
  "risk_level \<lparr> summary = ''Advisor Insight'' @ em_dash_sep @ ''No additional context supplied.'',
                recommended_actions = [VStr ''Resolve blocker: legal''],
                confidence = ''balanced'', risk_level = VStr ''severe'' \<rparr> = VStr ''severe''
   \<and> coerce_list str_of (map_of [(''risk_level'', VStr ''severe''), (''blockers'', VStr ''legal'')]
        ''blockers'') = [''legal'']"
  using advisory_risk_and_confidence[OF advisory_with_blocker refl]
  by (simp add: coerce_list_def str_of_def)

text \<open>
  The claim as stated fails on a risk level that is present and falsy: for the payload
  \<^verbatim>\<open>{"risk_level": 0}\<close> the advisory says \<^verbatim>\<open>low\<close>, not 0.
\<close>

theorem falsy_risk_level_replaced:
  "map_of [(''risk_level'', VInt 0)] ''risk_level'' = Some (VInt 0)
   \<and> generate_advisory str_of [] [(''risk_level'', VInt 0)]
       = Inr \<lparr> summary = ''Advisor Insight'' @ em_dash_sep @ ''No additional context supplied.'',
               recommended_actions = [VStr ''Document a concrete next step.''],
               confidence = ''high'', risk_level = VStr ''low'' \<rparr>
   \<and> VStr ''low'' \<noteq> VInt 0"
  by (simp add: generate_advisory_def Let_def coerce_list_def or_else_def)


section \<open>Stack registry\<close>

lemma scan_stacks_skip:
  "\<forall>x \<in> set xs. try_candidate rel env fs persona role x = Inr None \<Longrightarrow>
   scan_stacks rel env fs persona role (xs @ ys) = scan_stacks rel env fs persona role ys"
  by (induction xs) auto

lemma sort_split_first:
  assumes "c \<in> set (l :: 'a::linorder list)"
  obtains xs ys where "sort l = xs @ c # ys" and "\<forall>x \<in> set xs. x \<in> set l \<and> x < c"
proof -
  from assms have "c \<in> set (sort l)" by simp
  then obtain xs ys where s: "sort l = xs @ c # ys" and nc: "c \<notin> set xs"
    by (meson split_list_first)
  have "sorted (xs @ c # ys)" using sorted_sort[of l] s by simp
  then have le: "\<forall>x \<in> set xs. x \<le> c" by (auto simp: sorted_append)
  have sub: "set xs \<subseteq> set l"
    using s set_sort[of "\<lambda>x. x" l] by (metis Un_iff set_append subsetI)
  from le nc sub have "\<forall>x \<in> set xs. x \<in> set l \<and> x < c" by (auto simp: less_le)
  with s show ?thesis by (rule that)
qed

lemma sort_listing_unique:
  assumes "set l1 = set (l2 :: 'a::linorder list)" "distinct l1" "distinct l2"
  shows "sort l1 = sort l2"
  by (rule sorted_distinct_set_unique) (use assms in simp_all)

lemma try_candidate_found:
  assumes "try_candidate rel env fs persona role c = Inr (Some found)"
  shows "load_stack_with_includes rel fs (resolve env c) [] = Inr (fst found)
       \<and> snd found = resolve env c
       \<and> (\<exists>routing. map_of (fst found) ''routing'' = Some (VDict routing)
            \<and> map_of routing ''persona'' = Some (VStr persona)
            \<and> map_of routing ''role'' = Some (VStr role))"
proof -
  from assms obtain stack where
    st: "load_stack_with_includes rel fs (resolve env c) [] = Inr stack"
    by (cases "load_stack_with_includes rel fs (resolve env c) []")
       (simp_all add: try_candidate_def)
  with assms obtain routing where
    ro: "or_else (map_of stack ''routing'') (VDict []) = VDict routing"
    by (cases "or_else (map_of stack ''routing'') (VDict [])") (simp_all add: try_candidate_def)
  from assms st ro have m: "map_of routing ''persona'' = Some (VStr persona)
      \<and> map_of routing ''role'' = Some (VStr role)" and f: "found = (stack, resolve env c)"
    by (auto simp: try_candidate_def split: if_splits)
  from m have "routing \<noteq> []" by auto
  with ro have "map_of stack ''routing'' = Some (VDict routing)"
    by (cases "map_of stack ''routing''") (auto simp: or_else_def split: if_splits)
  with st m f show ?thesis by simp
qed

lemma discover_order_independent:
  assumes "set listing = set stacks_glob" and "distinct listing" and "distinct stacks_glob"
  shows "discover_stack rel env fs persona role listing None =
         discover_stack rel env fs persona role stacks_glob None"
  using sort_listing_unique[OF assms] by (simp add: discover_stack_def)

lemma discover_decided_at:
  assumes "c \<in> set stacks_glob"
    and "\<forall>c' \<in> set stacks_glob. c' < c \<longrightarrow> try_candidate rel env fs persona role c' = Inr None"
  shows "discover_stack rel env fs persona role stacks_glob None =
           (case try_candidate rel env fs persona role c of
              Inl e \<Rightarrow> Inl e
            | Inr (Some found) \<Rightarrow> Inr found
            | Inr None \<Rightarrow>
                scan_stacks rel env fs persona role
                  (tl (dropWhile (\<lambda>x. x \<noteq> c) (sort stacks_glob))))"
proof -
  obtain xs ys where s: "sort stacks_glob = xs @ c # ys"
    and before: "\<forall>x \<in> set xs. x \<in> set stacks_glob \<and> x < c"
    using sort_split_first[OF assms(1)] by blast
  from before assms(2) have skip: "\<forall>x \<in> set xs. try_candidate rel env fs persona role x = Inr None"
    by blast
  from before have "\<forall>x \<in> set xs. x \<noteq> c" by auto
  then have dw: "dropWhile (\<lambda>x. x \<noteq> c) (xs @ c # ys) = c # ys"
    by (simp add: dropWhile_append3)
  from s dw have tl: "tl (dropWhile (\<lambda>x. x \<noteq> c) (sort stacks_glob)) = ys"
    by simp
  have sc: "scan_stacks rel env fs persona role (sort stacks_glob) =
      (case try_candidate rel env fs persona role c of
         Inl e \<Rightarrow> Inl e
       | Inr (Some found) \<Rightarrow> Inr found
       | Inr None \<Rightarrow> scan_stacks rel env fs persona role ys)"
    using scan_stacks_skip[OF skip, of "c # ys"] s by simp
  show ?thesis
    unfolding tl by (simp add: discover_stack_def sc)
qed

text \<open>
  C7, as amended. Without an explicit path, the outcome of the lookup, a result or an
  error, is the same for every order in which the file system enumerates the directory.
  When every candidate whose file name sorts before that of a candidate resolves without
  error and does not match the persona and the role, the candidate decides the lookup: if
  it matches, the lookup returns it, its resolved configuration, whose routing names the
  persona and the role, and its resolved path, so that among several matching documents
  the one with the lexicographically earliest file name is returned; if resolving it, or
  reading its routing, raises an error, the lookup fails with that error.
\<close>

theorem earliest_match_found:
  assumes "set listing = set stacks_glob" and "distinct listing" and "distinct stacks_glob"
  shows "discover_stack rel env fs persona role listing None =
           discover_stack rel env fs persona role stacks_glob None
       \<and> (c \<in> set stacks_glob
           \<and> (\<forall>c' \<in> set stacks_glob. c' < c \<longrightarrow>
                 try_candidate rel env fs persona role c' = Inr None)
          \<longrightarrow>
            (\<forall>found. try_candidate rel env fs persona role c = Inr (Some found) \<longrightarrow>
                 discover_stack rel env fs persona role stacks_glob None = Inr found
               \<and> discover_stack rel env fs persona role listing None = Inr found
               \<and> load_stack_with_includes rel fs (resolve env c) [] = Inr (fst found)
               \<and> snd found = resolve env c
               \<and> (\<exists>routing. map_of (fst found) ''routing'' = Some (VDict routing)
                    \<and> map_of routing ''persona'' = Some (VStr persona)
                    \<and> map_of routing ''role'' = Some (VStr role)))
          \<and> (\<forall>e. try_candidate rel env fs persona role c = Inl e \<longrightarrow>
                 discover_stack rel env fs persona role stacks_glob None = Inl e
               \<and> discover_stack rel env fs persona role listing None = Inl e))"
proof -
  note indep = discover_order_independent[OF assms, of rel env fs persona role]
  have ok: "discover_stack rel env fs persona role stacks_glob None = Inr found
               \<and> discover_stack rel env fs persona role listing None = Inr found
               \<and> load_stack_with_includes rel fs (resolve env c) [] = Inr (fst found)
               \<and> snd found = resolve env c
               \<and> (\<exists>routing. map_of (fst found) ''routing'' = Some (VDict routing)
                    \<and> map_of routing ''persona'' = Some (VStr persona)
                    \<and> map_of routing ''role'' = Some (VStr role))"
    if "c \<in> set stacks_glob"
      and "\<forall>c' \<in> set stacks_glob. c' < c \<longrightarrow> try_candidate rel env fs persona role c' = Inr None"
      and t: "try_candidate rel env fs persona role c = Inr (Some found)" for found
    using discover_decided_at[OF that(1,2)] t indep try_candidate_found[OF t] by simp
  have err: "discover_stack rel env fs persona role stacks_glob None = Inl e
               \<and> discover_stack rel env fs persona role listing None = Inl e"
    if "c \<in> set stacks_glob"
      and "\<forall>c' \<in> set stacks_glob. c' < c \<longrightarrow> try_candidate rel env fs persona role c' = Inr None"
      and t: "try_candidate rel env fs persona role c = Inl e" for e
    using discover_decided_at[OF that(1,2)] t indep by simp
  from indep ok err show ?thesis by blast
qed

lemma load_stack_b:
  "load_stack_with_includes same_dir fs_stacks ''b.yaml'' []
     = Inr [routing_of ''p'' ''r'', (''meta'', VStr ''b'')]"
  by (simp add: load_stack_with_includes.simps load_yaml_def fs_stacks_def or_else_def
        includes_of_def body_of_def routing_of_def)

lemma load_stack_a:
  "load_stack_with_includes same_dir fs_stacks ''a.yaml'' []
     = Inr [routing_of ''p'' ''other'', (''meta'', VStr ''a'')]"
  by (simp add: load_stack_with_includes.simps load_yaml_def fs_stacks_def or_else_def
        includes_of_def body_of_def routing_of_def)

lemma try_stack_b:
  "try_candidate same_dir flat_env fs_stacks ''p'' ''r'' ''b.yaml''
     = Inr (Some ([routing_of ''p'' ''r'', (''meta'', VStr ''b'')], ''b.yaml''))"
  by (simp add: try_candidate_def flat_env_def load_stack_b)
     (simp add: routing_of_def or_else_def)

lemma try_stack_a:
  "try_candidate same_dir flat_env fs_stacks ''p'' ''r'' ''a.yaml'' = Inr None"
  by (simp add: try_candidate_def flat_env_def load_stack_a)
     (simp add: routing_of_def or_else_def)

lemma try_broken_a:
  "try_candidate same_dir flat_env fs_broken_first ''p'' ''r'' ''a.yaml''
     = Inl (FileNotFound ''missing.yaml'')"
proof -
  have ly: "load_yaml fs_broken_first ''a.yaml'' =
      Inr (VDict [(''include'', VList [VStr ''missing.yaml'']), routing_of ''p'' ''other''])"
    by (simp add: load_yaml_def fs_broken_first_def or_else_def)
  have miss: "load_stack_with_includes same_dir fs_broken_first ''missing.yaml'' [''a.yaml'']
      = Inl (FileNotFound ''missing.yaml'')"
    by (simp add: load_stack_with_includes.simps load_yaml_def fs_broken_first_def)
  have "load_stack_with_includes same_dir fs_broken_first ''a.yaml'' []
      = Inl (FileNotFound ''missing.yaml'')"
    by (simp add: load_stack_with_includes.simps[of same_dir fs_broken_first "''a.yaml''" "[]"]
          ly includes_of_def or_else_def same_dir_def miss)
  then show ?thesis
    by (simp add: try_candidate_def flat_env_def)
qed

text \<open>
  Two matching stacks enumerated in two orders: \<^verbatim>\<open>b.yaml\<close> is returned both times. With
  an \<^verbatim>\<open>a.yaml\<close> that does not resolve, the lookup fails with its error in both orders.
\<close>

theorem earliest_match_found_witness:
  "discover_stack same_dir flat_env fs_stacks ''p'' ''r'' [''c.yaml'', ''a.yaml'', ''b.yaml''] None
     = Inr ([routing_of ''p'' ''r'', (''meta'', VStr ''b'')], ''b.yaml'')
   \<and> discover_stack same_dir flat_env fs_stacks ''p'' ''r'' [''b.yaml'', ''c.yaml'', ''a.yaml''] None
     = Inr ([routing_of ''p'' ''r'', (''meta'', VStr ''b'')], ''b.yaml'')
   \<and> discover_stack same_dir flat_env fs_broken_first ''p'' ''r''
        [''c.yaml'', ''a.yaml'', ''b.yaml''] None = Inl (FileNotFound ''missing.yaml'')
   \<and> discover_stack same_dir flat_env fs_broken_first ''p'' ''r''
        [''b.yaml'', ''c.yaml'', ''a.yaml''] None = Inl (FileNotFound ''missing.yaml'')"
proof -
  have perm: "set [''b.yaml'', ''c.yaml'', ''a.yaml''] = set [''c.yaml'', ''a.yaml'', ''b.yaml'']"
    by auto
  have d1: "distinct [''b.yaml'', ''c.yaml'', ''a.yaml'']"
    and d2: "distinct [''c.yaml'', ''a.yaml'', ''b.yaml'']" by simp_all
  have before_b: "\<forall>c' \<in> set [''c.yaml'', ''a.yaml'', ''b.yaml''].
      c' < ''b.yaml'' \<longrightarrow> try_candidate same_dir flat_env fs_stacks ''p'' ''r'' c' = Inr None"
    by (simp add: try_stack_a)
  have before_a: "\<forall>c' \<in> set [''c.yaml'', ''a.yaml'', ''b.yaml''].
      c' < ''a.yaml'' \<longrightarrow> try_candidate same_dir flat_env fs_broken_first ''p'' ''r'' c' = Inr None"
    by simp
  have inb: "''b.yaml'' \<in> set [''c.yaml'', ''a.yaml'', ''b.yaml'']"
    and ina: "''a.yaml'' \<in> set [''c.yaml'', ''a.yaml'', ''b.yaml'']" by simp_all
  from earliest_match_found[OF perm d1 d2, of same_dir flat_env fs_stacks "''p''" "''r''"
      "''b.yaml''"] inb before_b try_stack_b
  have 1: "discover_stack same_dir flat_env fs_stacks ''p'' ''r''
             [''c.yaml'', ''a.yaml'', ''b.yaml''] None
           = Inr ([routing_of ''p'' ''r'', (''meta'', VStr ''b'')], ''b.yaml'')
         \<and> discover_stack same_dir flat_env fs_stacks ''p'' ''r''
             [''b.yaml'', ''c.yaml'', ''a.yaml''] None
           = Inr ([routing_of ''p'' ''r'', (''meta'', VStr ''b'')], ''b.yaml'')"
    by blast
  from earliest_match_found[OF perm d1 d2, of same_dir flat_env fs_broken_first "''p''" "''r''"
      "''a.yaml''"] ina before_a try_broken_a
  have 2: "discover_stack same_dir flat_env fs_broken_first ''p'' ''r''
             [''c.yaml'', ''a.yaml'', ''b.yaml''] None = Inl (FileNotFound ''missing.yaml'')
         \<and> discover_stack same_dir flat_env fs_broken_first ''p'' ''r''
             [''b.yaml'', ''c.yaml'', ''a.yaml''] None = Inl (FileNotFound ''missing.yaml'')"
    by blast
  from 1 2 show ?thesis by simp
qed

text \<open>
  The claim as stated fails where a candidate that sorts before the matching ones does
  not resolve: \<^verbatim>\<open>b.yaml\<close> and \<^verbatim>\<open>c.yaml\<close> both match, \<^verbatim>\<open>a.yaml\<close> includes a file that
  is missing, and the lookup fails with the error of \<^verbatim>\<open>a.yaml\<close> and returns no document.
\<close>

theorem broken_earlier_candidate_fails_lookup:
  "discover_stack same_dir flat_env fs_broken_first ''p'' ''r''
     [''c.yaml'', ''a.yaml'', ''b.yaml''] None = Inl (FileNotFound ''missing.yaml'')"
proof -
  have ly: "load_yaml fs_broken_first ''a.yaml'' =
      Inr (VDict [(''include'', VList [VStr ''missing.yaml'']), routing_of ''p'' ''other''])"
    by (simp add: load_yaml_def fs_broken_first_def or_else_def)
  have miss: "load_stack_with_includes same_dir fs_broken_first ''missing.yaml'' [''a.yaml'']
      = Inl (FileNotFound ''missing.yaml'')"
    by (simp add: load_stack_with_includes.simps load_yaml_def fs_broken_first_def)
  have "load_stack_with_includes same_dir fs_broken_first ''a.yaml'' []
      = Inl (FileNotFound ''missing.yaml'')"
    by (simp add: load_stack_with_includes.simps[of same_dir fs_broken_first "''a.yaml''" "[]"]
          ly includes_of_def or_else_def same_dir_def miss)
  then have "try_candidate same_dir flat_env fs_broken_first ''p'' ''r'' ''a.yaml''
      = Inl (FileNotFound ''missing.yaml'')"
    by (simp add: try_candidate_def flat_env_def)
  then show ?thesis
    by (simp add: discover_stack_def)
qed

section \<open>Digest\<close>

lemma and_then_Inr [simp]: "and_then (Inr x) f = f x"
  by (simp add: and_then_def)

lemma and_then_Inl [simp]: "and_then (Inl e) f = Inl e"
  by (simp add: and_then_def)

lemma and_then_eq_Inr: "and_then m f = Inr y \<longleftrightarrow> (\<exists>x. m = Inr x \<and> f x = Inr y)"
  by (cases m) simp_all

lemma py_get_dict [simp]:
  "py_get (VDict kvs) key dflt = Inr (case map_of kvs key of None \<Rightarrow> dflt | Some v \<Rightarrow> v)"
  by (simp add: py_get_def)




























lemma digest_of_logger:
  "digest_of p d = Inr r \<Longrightarrow> \<exists>lg. load_json d ''logger.json'' = Inr lg \<and> r_logger_present r = truthy lg"
  by (auto simp: digest_of_def and_then_eq_Inr)

lemma digest_of_evaluation:
  "digest_of p d = Inr r \<Longrightarrow>
   \<exists>ev. load_json d ''evaluation.json'' = Inr ev
      \<and> py_get ev ''schema_version'' VNull = Inr (r_evaluation_schema r)
      \<and> and_then (py_get ev ''criteria'' (VList [])) py_len = Inr (r_evaluation_criteria r)"
  by (auto simp: digest_of_def and_then_eq_Inr)

lemma digest_of_cong:
  "\<lbrakk> load_json d1 ''relay.json'' = load_json d2 ''relay.json'';
     load_json d1 ''evaluation.json'' = load_json d2 ''evaluation.json'';
     load_json d1 ''logger.json'' = load_json d2 ''logger.json'' \<rbrakk>
   \<Longrightarrow> digest_of p d1 = digest_of p d2"
  by (simp add: digest_of_def)

lemma load_json_removed:
  "load_json (filter (\<lambda>kv. fst kv \<noteq> k0) d) k = (if k = k0 then Inr (VDict []) else load_json d k)"
  by (simp add: load_json_def map_of_filter_eq map_of_filter_neq)

lemma truthy_iff:
  "truthy v \<longleftrightarrow> v \<noteq> VNull \<and> v \<noteq> VBool False \<and> v \<noteq> VInt 0 \<and> v \<noteq> VStr []
                \<and> v \<noteq> VList [] \<and> v \<noteq> VDict []"
  by (cases v) auto

text \<open>
  C10, as amended. In every record of the digest, the flag \<^verbatim>\<open>logger_present\<close> is true
  exactly when \<^verbatim>\<open>logger.json\<close> exists in the run directory and decodes to a JSON value
  other than null, false, the number 0, the empty string, the empty array and the empty
  object. A \<^verbatim>\<open>logger.json\<close> holding the empty object gives the flag false and the very
  record that the run directory without the file gives; an \<^verbatim>\<open>evaluation.json\<close> holding
  the empty object gives the default evaluation fields, no schema and zero criteria, and
  again the record of the run directory without the file.
\<close>

theorem logger_present_iff:
  assumes "digest_of run_path d = Inr r"
  shows "r_logger_present r =
           (\<exists>v. map_of d ''logger.json'' = Some (File (Some v))
              \<and> v \<noteq> VNull \<and> v \<noteq> VBool False \<and> v \<noteq> VInt 0 \<and> v \<noteq> VStr []
              \<and> v \<noteq> VList [] \<and> v \<noteq> VDict [])
       \<and> (map_of d ''logger.json'' = Some (File (Some (VDict []))) \<longrightarrow>
            \<not> r_logger_present r
            \<and> digest_of run_path (filter (\<lambda>kv. fst kv \<noteq> ''logger.json'') d) = Inr r)
       \<and> (map_of d ''evaluation.json'' = Some (File (Some (VDict []))) \<longrightarrow>
            r_evaluation_schema r = VNull \<and> r_evaluation_criteria r = 0
            \<and> digest_of run_path (filter (\<lambda>kv. fst kv \<noteq> ''evaluation.json'') d) = Inr r)"
proof -
  from digest_of_logger[OF assms] obtain lg where
    lg: "load_json d ''logger.json'' = Inr lg" and pr: "r_logger_present r = truthy lg" by blast
  have 1: "r_logger_present r = (\<exists>v. map_of d ''logger.json'' = Some (File (Some v)) \<and> truthy v)"
  proof (cases "map_of d ''logger.json''")
    case None
    with lg pr show ?thesis by (auto simp: load_json_def)
  next
    case (Some nd)
    show ?thesis
    proof (cases nd)
      case (File content)
      with Some lg pr show ?thesis by (cases content) (auto simp: load_json_def)
    next
      case (Dir children)
      with Some lg show ?thesis by (simp add: load_json_def)
    qed
  qed
  have 2: "\<not> r_logger_present r
            \<and> digest_of run_path (filter (\<lambda>kv. fst kv \<noteq> ''logger.json'') d) = Inr r"
    if h: "map_of d ''logger.json'' = Some (File (Some (VDict [])))"
  proof -
    have same: "load_json d ''logger.json'' = Inr (VDict [])"
      using h by (simp add: load_json_def)
    have "digest_of run_path (filter (\<lambda>kv. fst kv \<noteq> ''logger.json'') d) = digest_of run_path d"
      by (rule digest_of_cong) (simp_all add: load_json_removed same)
    with assms 1 h show ?thesis by simp
  qed
  have 3: "r_evaluation_schema r = VNull \<and> r_evaluation_criteria r = 0
            \<and> digest_of run_path (filter (\<lambda>kv. fst kv \<noteq> ''evaluation.json'') d) = Inr r"
    if h: "map_of d ''evaluation.json'' = Some (File (Some (VDict [])))"
  proof -
    have same: "load_json d ''evaluation.json'' = Inr (VDict [])"
      using h by (simp add: load_json_def)
    from digest_of_evaluation[OF assms] same
    have f: "r_evaluation_schema r = VNull \<and> r_evaluation_criteria r = 0"
      by auto
    have "digest_of run_path (filter (\<lambda>kv. fst kv \<noteq> ''evaluation.json'') d) = digest_of run_path d"
      by (rule digest_of_cong) (simp_all add: load_json_removed same)
    with assms f show ?thesis by simp
  qed
  from 1 have flag: "r_logger_present r =
           (\<exists>v. map_of d ''logger.json'' = Some (File (Some v))
              \<and> v \<noteq> VNull \<and> v \<noteq> VBool False \<and> v \<noteq> VInt 0 \<and> v \<noteq> VStr []
              \<and> v \<noteq> VList [] \<and> v \<noteq> VDict [])"
    by (simp add: truthy_iff)
  from flag 2 3 show ?thesis by blast
qed

lemma digest_logged_run:
  "digest_of [''run-02''] logged_run
     = Inr ((record_of [''run-02''] ''p'')\<lparr> r_logger_present := True \<rparr>)"
  by (simp add: digest_of_def load_json_def record_of_def logged_run_def)

lemma digest_empty_artifacts:
  "digest_of [''run-01''] empty_artifacts = Inr (record_of [''run-01''] ''p'')"
  by (simp add: digest_of_def load_json_def record_of_def empty_artifacts_def)

text \<open>
  A run directory with a log gives the flag true; one whose log and evaluation are empty
  objects gives the flag false, the default evaluation fields, and the record it gives
  without the two files.
\<close>

theorem logger_present_iff_witness:
  "digest_of [''run-02''] logged_run
     = Inr ((record_of [''run-02''] ''p'')\<lparr> r_logger_present := True \<rparr>)
   \<and> map_of logged_run ''logger.json'' = Some (File (Some (VDict [(''persona'', VStr ''p'')])))
   \<and> r_logger_present ((record_of [''run-02''] ''p'')\<lparr> r_logger_present := True \<rparr>)
   \<and> digest_of [''run-01''] empty_artifacts = Inr (record_of [''run-01''] ''p'')
   \<and> \<not> r_logger_present (record_of [''run-01''] ''p'')
   \<and> digest_of [''run-01''] (filter (\<lambda>kv. fst kv \<noteq> ''logger.json'') empty_artifacts)
       = Inr (record_of [''run-01''] ''p'')
   \<and> r_evaluation_schema (record_of [''run-01''] ''p'') = VNull
   \<and> r_evaluation_criteria (record_of [''run-01''] ''p'') = 0
   \<and> digest_of [''run-01''] (filter (\<lambda>kv. fst kv \<noteq> ''evaluation.json'') empty_artifacts)
       = Inr (record_of [''run-01''] ''p'')"
proof -
  have lr: "map_of logged_run ''logger.json''
              = Some (File (Some (VDict [(''persona'', VStr ''p'')])))"
    by (simp add: logged_run_def)
  have "\<exists>v. map_of logged_run ''logger.json'' = Some (File (Some v))
              \<and> v \<noteq> VNull \<and> v \<noteq> VBool False \<and> v \<noteq> VInt 0 \<and> v \<noteq> VStr []
              \<and> v \<noteq> VList [] \<and> v \<noteq> VDict []"
    using lr by simp
  with logger_present_iff[OF digest_logged_run]
  have t: "r_logger_present ((record_of [''run-02''] ''p'')\<lparr> r_logger_present := True \<rparr>)"
    by blast
  have lg: "map_of empty_artifacts ''logger.json'' = Some (File (Some (VDict [])))"
    and ev: "map_of empty_artifacts ''evaluation.json'' = Some (File (Some (VDict [])))"
    by (simp_all add: empty_artifacts_def)
  from logger_present_iff[OF digest_empty_artifacts] lg ev
  have f: "\<not> r_logger_present (record_of [''run-01''] ''p'')
   \<and> digest_of [''run-01''] (filter (\<lambda>kv. fst kv \<noteq> ''logger.json'') empty_artifacts)
       = Inr (record_of [''run-01''] ''p'')
   \<and> r_evaluation_schema (record_of [''run-01''] ''p'') = VNull
   \<and> r_evaluation_criteria (record_of [''run-01''] ''p'') = 0
   \<and> digest_of [''run-01''] (filter (\<lambda>kv. fst kv \<noteq> ''evaluation.json'') empty_artifacts)
       = Inr (record_of [''run-01''] ''p'')"
    by blast
  from digest_logged_run lr t digest_empty_artifacts f show ?thesis by blast
qed

text \<open>
  The claim as stated fails on a \<^verbatim>\<open>logger.json\<close> that exists and decodes to a value that
  is not empty and is falsy: the number 0 and the value false both give the flag false.
\<close>

theorem falsy_log_reported_absent:
  "map_of zero_log ''logger.json'' = Some (File (Some (VInt 0)))
   \<and> digest_of [''run-03''] zero_log = Inr (record_of [''run-03''] ''p'')
   \<and> map_of false_log ''logger.json'' = Some (File (Some (VBool False)))
   \<and> digest_of [''run-04''] false_log = Inr (record_of [''run-04''] ''p'')
   \<and> \<not> r_logger_present (record_of [''run-03''] ''p'')
   \<and> \<not> r_logger_present (record_of [''run-04''] ''p'')"
  by (simp add: digest_of_def load_json_def record_of_def zero_log_def false_log_def)

section \<open>Determinism and the store\<close>

lemma preserved_refl: "preserved h h"
  by (simp add: preserved_def)

lemma preserved_append: "preserved h (h @ ys)"
  by (simp add: preserved_def)

lemma preserved_length: "preserved h h' \<Longrightarrow> length h \<le> length h'"
  by (metis preserved_def length_take min.cobounded2 min.commute)

lemma preserved_nth: "preserved h h' \<Longrightarrow> r < length h \<Longrightarrow> h' ! r = h ! r"
  by (metis preserved_def nth_take)

lemma preserved_trans: "preserved h h1 \<Longrightarrow> preserved h1 h2 \<Longrightarrow> preserved h h2"
proof -
  assume a: "preserved h h1" and b: "preserved h1 h2"
  from a obtain ys where "h1 = h @ ys"
    by (metis preserved_def append_take_drop_id)
  moreover from b obtain zs where "h2 = h1 @ zs"
    by (metis preserved_def append_take_drop_id)
  ultimately show ?thesis by (simp add: preserved_def)
qed

lemma anc_ok_preserved: "anc_ok h anc ancestry \<Longrightarrow> preserved h h' \<Longrightarrow> anc_ok h' anc ancestry"
  by (cases anc) (auto simp: anc_ok_def preserved_nth dest: preserved_length)

lemma or_empty_ok:
  assumes "anc_ok h anc ancestry" and "or_empty anc h = (a, h1)"
  shows "a < length h1 \<and> h1 ! a = ancestry \<and> preserved h h1"
proof (cases anc)
  case None
  with assms show ?thesis
    by (auto simp: or_empty_def alloc_def anc_ok_def preserved_append)
next
  case (Some r)
  with assms show ?thesis
    by (auto simp: or_empty_def alloc_def anc_ok_def preserved_append preserved_refl nth_append
          split: if_splits)
qed

lemma then_h_Some_Inr [simp]: "then_h (Some (Inr x, h)) rest = rest x h"
  by (simp add: then_h_def)

lemma then_h_Some_Inl [simp]: "then_h (Some (Inl e, h)) rest = Some (Inl e, h)"
  by (simp add: then_h_def)

lemma then_h_None [simp]: "then_h None rest = None"
  by (simp add: then_h_def)

lemma enough_fuel:
  "\<exists>N. \<forall>n\<ge>N. \<forall>h anc. anc_ok h anc ancestry \<longrightarrow>
      (\<exists>h'. load_h n rel fs path anc h
               = Some (load_stack_with_includes rel fs path ancestry, h') \<and> preserved h h')"
  "\<exists>N. \<forall>n\<ge>N. \<forall>h a. a < length h \<and> h ! a = ancestry \<longrightarrow>
      (\<exists>h'. merge_h n rel fs path a incs merged h
               = Some (merge_includes rel fs path ancestry incs merged, h') \<and> preserved h h')"
proof (induction rel fs path ancestry and rel fs path ancestry incs merged
       rule: load_stack_with_includes_merge_includes.induct)
  case (1 rel fs path ancestry)
  show ?case
  proof (cases "path \<in> set ancestry")
    case True
    have "\<exists>h'. load_h n rel fs path anc h
               = Some (load_stack_with_includes rel fs path ancestry, h') \<and> preserved h h'"
      if "n \<ge> 1" and ok: "anc_ok h anc ancestry" for n h anc
    proof -
      from that obtain m where n: "n = Suc m" by (cases n) auto
      obtain a h1 where oe: "or_empty anc h = (a, h1)" by (cases "or_empty anc h")
      from or_empty_ok[OF ok oe] have a: "h1 ! a = ancestry" and p: "preserved h h1" by auto
      have "preserved h (h1 @ [ancestry @ [path]])"
        by (rule preserved_trans[OF p preserved_append])
      then show ?thesis
        using True a by (simp add: n oe alloc_def load_stack_with_includes.simps)
    qed
    then show ?thesis by blast
  next
    case False
    show ?thesis
    proof (cases "load_yaml fs path")
      case (Inl e)
      have "\<exists>h'. load_h n rel fs path anc h
               = Some (load_stack_with_includes rel fs path ancestry, h') \<and> preserved h h'"
        if "n \<ge> 1" and ok: "anc_ok h anc ancestry" for n h anc
      proof -
        from that obtain m where n: "n = Suc m" by (cases n) auto
        obtain a h1 where oe: "or_empty anc h = (a, h1)" by (cases "or_empty anc h")
        from or_empty_ok[OF ok oe] have a: "h1 ! a = ancestry" and p: "preserved h h1" by auto
        show ?thesis
          using False a p Inl by (simp add: n oe load_stack_with_includes.simps)
      qed
      then show ?thesis by blast
    next
      case (Inr data)
      show ?thesis
      proof (cases "includes_of data")
        case (Inl e)
        have "\<exists>h'. load_h n rel fs path anc h
               = Some (load_stack_with_includes rel fs path ancestry, h') \<and> preserved h h'"
          if "n \<ge> 1" and ok: "anc_ok h anc ancestry" for n h anc
        proof -
          from that obtain m where n: "n = Suc m" by (cases n) auto
          obtain a h1 where oe: "or_empty anc h = (a, h1)" by (cases "or_empty anc h")
          from or_empty_ok[OF ok oe] have a: "h1 ! a = ancestry" and p: "preserved h h1" by auto
          show ?thesis
            using False a p Inl \<open>load_yaml fs path = Inr data\<close>
            by (simp add: n oe load_stack_with_includes.simps)
        qed
        then show ?thesis by blast
      next
        case (Inr incs)
        from 1[OF False \<open>load_yaml fs path = Inr data\<close> Inr] obtain N where
          N: "\<And>n h a. n \<ge> N \<Longrightarrow> a < length h \<Longrightarrow> h ! a = ancestry \<Longrightarrow>
               \<exists>h'. merge_h n rel fs path a incs [] h
                      = Some (merge_includes rel fs path ancestry incs [], h') \<and> preserved h h'"
          by blast
        have "\<exists>h'. load_h n rel fs path anc h
               = Some (load_stack_with_includes rel fs path ancestry, h') \<and> preserved h h'"
          if "n \<ge> Suc N" and ok: "anc_ok h anc ancestry" for n h anc
        proof -
          from that obtain m where n: "n = Suc m" and m: "m \<ge> N" by (cases n) auto
          obtain a h1 where oe: "or_empty anc h = (a, h1)" by (cases "or_empty anc h")
          from or_empty_ok[OF ok oe] have al: "a < length h1" and a: "h1 ! a = ancestry"
            and p: "preserved h h1" by auto
          from N[OF m al a] obtain h2 where
            mh: "merge_h m rel fs path a incs [] h1
                   = Some (merge_includes rel fs path ancestry incs [], h2)"
            and p2: "preserved h1 h2" by blast
          have p3: "preserved h h2" by (rule preserved_trans[OF p p2])
          show ?thesis
            using False a p3 Inr \<open>load_yaml fs path = Inr data\<close> mh
            by (cases "merge_includes rel fs path ancestry incs []"; cases "body_of data")
               (simp_all add: n oe load_stack_with_includes.simps[of rel fs path ancestry])
        qed
        then show ?thesis by blast
      qed
    qed
  qed
next
  case (2 rel fs path ancestry merged)
  show ?case by (simp add: preserved_refl)
next
  case (3 rel fs path ancestry include_name rest merged)
  show ?case
  proof (cases include_name)
    case (VStr name)
    from 3(1)[OF VStr] obtain N1 where
      N1: "\<And>n h anc. n \<ge> N1 \<Longrightarrow> anc_ok h anc (ancestry @ [path]) \<Longrightarrow>
            \<exists>h'. load_h n rel fs (rel path name) anc h
                   = Some (load_stack_with_includes rel fs (rel path name) (ancestry @ [path]), h')
                 \<and> preserved h h'"
      by blast
    show ?thesis
    proof (cases "load_stack_with_includes rel fs (rel path name) (ancestry @ [path])")
      case (Inl e)
      have "\<exists>h'. merge_h n rel fs path a (include_name # rest) merged h
               = Some (merge_includes rel fs path ancestry (include_name # rest) merged, h')
             \<and> preserved h h'"
        if "n \<ge> N1" and al: "a < length h" and a: "h ! a = ancestry" for n h a
      proof -
        let ?h1 = "h @ [ancestry @ [path]]"
        have ok: "anc_ok ?h1 (Some (length h)) (ancestry @ [path])"
          by (simp add: anc_ok_def)
        from N1[OF that(1) ok] Inl obtain h2 where
          lh: "load_h n rel fs (rel path name) (Some (length h)) ?h1 = Some (Inl e, h2)"
          and p2: "preserved ?h1 h2" by auto
        have "preserved h h2" by (rule preserved_trans[OF preserved_append p2])
        then show ?thesis
          using VStr Inl lh a by (simp add: alloc_def)
      qed
      then show ?thesis by blast
    next
      case (Inr sub)
      from 3(2)[OF VStr Inr] obtain N2 where
        N2: "\<And>n h a. n \<ge> N2 \<Longrightarrow> a < length h \<Longrightarrow> h ! a = ancestry \<Longrightarrow>
              \<exists>h'. merge_h n rel fs path a rest (deep_merge merged sub) h
                     = Some (merge_includes rel fs path ancestry rest (deep_merge merged sub), h')
                   \<and> preserved h h'"
        by blast
      have "\<exists>h'. merge_h n rel fs path a (include_name # rest) merged h
               = Some (merge_includes rel fs path ancestry (include_name # rest) merged, h')
             \<and> preserved h h'"
        if "n \<ge> max N1 N2" and al: "a < length h" and a: "h ! a = ancestry" for n h a
      proof -
        from that(1) have n1: "n \<ge> N1" and n2: "n \<ge> N2" by auto
        let ?h1 = "h @ [ancestry @ [path]]"
        have ok: "anc_ok ?h1 (Some (length h)) (ancestry @ [path])"
          by (simp add: anc_ok_def)
        from N1[OF n1 ok] Inr obtain h2 where
          lh: "load_h n rel fs (rel path name) (Some (length h)) ?h1 = Some (Inr sub, h2)"
          and p2: "preserved ?h1 h2" by auto
        have p02: "preserved h h2" by (rule preserved_trans[OF preserved_append p2])
        have al2: "a < length h2" using al preserved_length[OF p02] by simp
        have a2: "h2 ! a = ancestry" using preserved_nth[OF p02 al] a by simp
        from N2[OF n2 al2 a2] obtain h3 where
          mh: "merge_h n rel fs path a rest (deep_merge merged sub) h2
                 = Some (merge_includes rel fs path ancestry rest (deep_merge merged sub), h3)"
          and p3: "preserved h2 h3" by blast
        have "preserved h h3" by (rule preserved_trans[OF p02 p3])
        then show ?thesis
          using VStr Inr lh mh a by (simp add: alloc_def)
      qed
      then show ?thesis by blast
    qed
  qed (simp_all add: preserved_refl)
qed

lemma then_h_eq_Some:
  "then_h step rest = Some out \<longleftrightarrow>
     (\<exists>e h. step = Some (Inl e, h) \<and> out = (Inl e, h))
   \<or> (\<exists>x h. step = Some (Inr x, h) \<and> rest x h = Some out)"
proof (cases step)
  case None
  then show ?thesis by simp
next
  case (Some rh)
  obtain res h where rh: "rh = (res, h)" by (cases rh)
  show ?thesis unfolding Some rh by (cases res) auto
qed

lemma returns_pure:
  "anc_ok h anc ancestry \<longrightarrow> load_h n rel fs path anc h = Some (res, h') \<longrightarrow>
     res = load_stack_with_includes rel fs path ancestry \<and> preserved h h'"
  "a < length h \<longrightarrow> h ! a = ancestry \<longrightarrow>
   merge_h n rel fs path a incs merged h = Some (res, h') \<longrightarrow>
     res = merge_includes rel fs path ancestry incs merged \<and> preserved h h'"
proof (induction n rel fs path anc h and n rel fs path a incs merged h
       arbitrary: ancestry res h' and ancestry res h' rule: load_h_merge_h.induct)
  case (1 rel fs path anc h)
  show ?case by simp
next
  case (2 n rel fs path anc h)
  show ?case
  proof (intro impI)
    assume ok: "anc_ok h anc ancestry"
      and run: "load_h (Suc n) rel fs path anc h = Some (res, h')"
    obtain a h1 where oe: "or_empty anc h = (a, h1)" by (cases "or_empty anc h")
    from or_empty_ok[OF ok oe] have al: "a < length h1" and a: "h1 ! a = ancestry"
      and p: "preserved h h1" by auto
    show "res = load_stack_with_includes rel fs path ancestry \<and> preserved h h'"
    proof (cases "path \<in> set ancestry")
      case True
      with run a have "res = Inl (CircularInclude (ancestry @ [path]))"
        and "h' = h1 @ [ancestry @ [path]]"
        by (auto simp: oe alloc_def)
      with True p show ?thesis
        by (simp add: load_stack_with_includes.simps preserved_trans[OF p preserved_append])
    next
      case False
      show ?thesis
      proof (cases "load_yaml fs path")
        case (Inl e)
        with run a False p show ?thesis
          by (auto simp: oe load_stack_with_includes.simps)
      next
        case (Inr data)
        show ?thesis
        proof (cases "includes_of data")
          case (Inl e)
          with run a False p \<open>load_yaml fs path = Inr data\<close> show ?thesis
            by (auto simp: oe load_stack_with_includes.simps)
        next
          case (Inr incs)
          have np: "path \<notin> set (h1 ! a)" using False a by simp
          note IH = 2[OF refl oe[symmetric] np \<open>load_yaml fs path = Inr data\<close> Inr,
                      of ancestry, rule_format, OF al a]
          from run a False \<open>load_yaml fs path = Inr data\<close> Inr
          have th: "then_h (merge_h n rel fs path a incs [] h1) (\<lambda>merged h2.
                       (case body_of data of
                          Inl e \<Rightarrow> Some (Inl e, h2)
                        | Inr body \<Rightarrow> Some (Inr (deep_merge merged body), h2)))
                    = Some (res, h')"
            by (simp add: oe)
          then show ?thesis
          proof (simp only: then_h_eq_Some, elim disjE exE conjE)
            fix e h2
            assume m: "merge_h n rel fs path a incs [] h1 = Some (Inl e, h2)"
              and out: "(res, h') = (Inl e, h2)"
            from IH[OF m] out have "merge_includes rel fs path ancestry incs [] = Inl e"
              and "preserved h1 h'" by auto
            with False \<open>load_yaml fs path = Inr data\<close> Inr out p show ?thesis
              by (auto simp: load_stack_with_includes.simps[of rel fs path ancestry]
                    intro: preserved_trans)
          next
            fix merged h2
            assume m: "merge_h n rel fs path a incs [] h1 = Some (Inr merged, h2)"
              and out: "(case body_of data of
                          Inl e \<Rightarrow> Some (Inl e, h2)
                        | Inr body \<Rightarrow> Some (Inr (deep_merge merged body), h2)) = Some (res, h')"
            from IH[OF m] have mi: "merge_includes rel fs path ancestry incs [] = Inr merged"
              and p2: "preserved h1 h2" by auto
            from out have "h' = h2" by (cases "body_of data") auto
            with False \<open>load_yaml fs path = Inr data\<close> Inr out p p2 mi show ?thesis
              by (cases "body_of data")
                 (auto simp: load_stack_with_includes.simps[of rel fs path ancestry]
                    intro: preserved_trans)
          qed
        qed
      qed
    qed
  qed
next
  case (3 n rel fs path a merged h)
  show ?case by (auto simp: preserved_refl)
next
  case (4 n rel fs path a include_name rest merged h)
  show ?case
  proof (intro impI)
    assume al: "a < length h" and a: "h ! a = ancestry"
      and run: "merge_h n rel fs path a (include_name # rest) merged h = Some (res, h')"
    show "res = merge_includes rel fs path ancestry (include_name # rest) merged
          \<and> preserved h h'"
    proof (cases include_name)
      case (VStr name)
      let ?h1 = "h @ [ancestry @ [path]]"
      have al1: "alloc h (h ! a @ [path]) = (length h, ?h1)"
        by (simp add: alloc_def a)
      have ok: "anc_ok ?h1 (Some (length h)) (ancestry @ [path])"
        by (simp add: anc_ok_def)
      note IH1 = 4(1)[OF VStr refl al1[symmetric], of "ancestry @ [path]", rule_format, OF ok]
      note IH2 = 4(2)[OF VStr refl al1[symmetric], of _ ancestry, rule_format]
      from run VStr have th:
        "then_h (load_h n rel fs (rel path name) (Some (length h)) ?h1) (\<lambda>sub h2.
                merge_h n rel fs path a rest (deep_merge merged sub) h2) = Some (res, h')"
        by (simp add: al1)
      then show ?thesis
      proof (simp only: then_h_eq_Some, elim disjE exE conjE)
        fix e h2
        assume l: "load_h n rel fs (rel path name) (Some (length h)) ?h1 = Some (Inl e, h2)"
          and out: "(res, h') = (Inl e, h2)"
        from IH1[OF l] have
          "load_stack_with_includes rel fs (rel path name) (ancestry @ [path]) = Inl e"
          and p2: "preserved ?h1 h2" by auto
        with out VStr show ?thesis
          by (auto intro: preserved_trans[OF preserved_append])
      next
        fix sub h2
        assume l: "load_h n rel fs (rel path name) (Some (length h)) ?h1 = Some (Inr sub, h2)"
          and m: "merge_h n rel fs path a rest (deep_merge merged sub) h2 = Some (res, h')"
        from IH1[OF l] have
          ls: "load_stack_with_includes rel fs (rel path name) (ancestry @ [path]) = Inr sub"
          and p2: "preserved ?h1 h2" by auto
        have p02: "preserved h h2" by (rule preserved_trans[OF preserved_append p2])
        have al2: "a < length h2" using al preserved_length[OF p02] by simp
        have a2: "h2 ! a = ancestry" using preserved_nth[OF p02 al] a by simp
        from IH2[OF al2 a2 m] have
          "res = merge_includes rel fs path ancestry rest (deep_merge merged sub)"
          and p3: "preserved h2 h'" by auto
        with ls VStr p02 show ?thesis
          by (auto intro: preserved_trans)
      qed
    next
      case VNull
      with run show ?thesis by (auto simp: preserved_refl)
    next
      case (VBool b)
      with run show ?thesis by (auto simp: preserved_refl)
    next
      case (VInt i)
      with run show ?thesis by (auto simp: preserved_refl)
    next
      case (VList xs)
      with run show ?thesis by (auto simp: preserved_refl)
    next
      case (VDict kvs)
      with run show ?thesis by (auto simp: preserved_refl)
    qed
  qed
qed

text \<open>
  C9. The resolver with its ancestry lists in a store: \<open>load_h\<close> allocates a list for
  \<^verbatim>\<open>ancestry or []\<close> and for every \<^verbatim>\<open>ancestry + [path]\<close> and writes to no list that
  exists. For any two resolutions started one after the other on the same store, with
  ancestry lists that may be one and the same list: both return (enough fuel for the
  depth of the includes is all they need), each returns the value that
  \<open>load_stack_with_includes\<close> gives for its path and the content of its ancestry list,
  whatever else the store holds and whatever ran before, and every list of the store is
  afterwards what it was. Hence two calls with the same path and the same ancestry give
  the same configuration, and no resolution changes the result of another.
\<close>

theorem resolve_deterministic:
  assumes "anc_ok h anc1 ancestry1" and "anc_ok h anc2 ancestry2"
  shows "(\<exists>N. \<forall>n\<ge>N. \<exists>h1 h2.
            load_h n rel fs path1 anc1 h
              = Some (load_stack_with_includes rel fs path1 ancestry1, h1)
          \<and> load_h n rel fs path2 anc2 h1
              = Some (load_stack_with_includes rel fs path2 ancestry2, h2)
          \<and> preserved h h1 \<and> preserved h h2)
       \<and> (\<forall>n res h1. load_h n rel fs path1 anc1 h = Some (res, h1) \<longrightarrow>
             res = load_stack_with_includes rel fs path1 ancestry1 \<and> preserved h h1
             \<and> anc_ok h1 anc1 ancestry1 \<and> anc_ok h1 anc2 ancestry2)"
proof -
  from enough_fuel(1)[of ancestry1 rel fs path1] obtain N1 where
    N1: "\<And>n h anc. n \<ge> N1 \<Longrightarrow> anc_ok h anc ancestry1 \<Longrightarrow>
          \<exists>h'. load_h n rel fs path1 anc h
                 = Some (load_stack_with_includes rel fs path1 ancestry1, h') \<and> preserved h h'"
    by blast
  from enough_fuel(1)[of ancestry2 rel fs path2] obtain N2 where
    N2: "\<And>n h anc. n \<ge> N2 \<Longrightarrow> anc_ok h anc ancestry2 \<Longrightarrow>
          \<exists>h'. load_h n rel fs path2 anc h
                 = Some (load_stack_with_includes rel fs path2 ancestry2, h') \<and> preserved h h'"
    by blast
  have both: "\<exists>h1 h2.
            load_h n rel fs path1 anc1 h
              = Some (load_stack_with_includes rel fs path1 ancestry1, h1)
          \<and> load_h n rel fs path2 anc2 h1
              = Some (load_stack_with_includes rel fs path2 ancestry2, h2)
          \<and> preserved h h1 \<and> preserved h h2"
    if "n \<ge> max N1 N2" for n
  proof -
    from that have n1: "n \<ge> N1" and n2: "n \<ge> N2" by auto
    from N1[OF n1 assms(1)] obtain h1 where
      l1: "load_h n rel fs path1 anc1 h
             = Some (load_stack_with_includes rel fs path1 ancestry1, h1)"
      and p1: "preserved h h1" by blast
    from N2[OF n2 anc_ok_preserved[OF assms(2) p1]] obtain h2 where
      l2: "load_h n rel fs path2 anc2 h1
             = Some (load_stack_with_includes rel fs path2 ancestry2, h2)"
      and p2: "preserved h1 h2" by blast
    from l1 l2 p1 preserved_trans[OF p1 p2] show ?thesis by blast
  qed
  have sound: "res = load_stack_with_includes rel fs path1 ancestry1 \<and> preserved h h1
             \<and> anc_ok h1 anc1 ancestry1 \<and> anc_ok h1 anc2 ancestry2"
    if "load_h n rel fs path1 anc1 h = Some (res, h1)" for n res h1
  proof -
    from returns_pure(1)[of h anc1 ancestry1 n rel fs path1 res h1] assms(1) that
    have r: "res = load_stack_with_includes rel fs path1 ancestry1" and p: "preserved h h1"
      by auto
    from r p anc_ok_preserved[OF assms(1) p] anc_ok_preserved[OF assms(2) p]
    show ?thesis by simp
  qed
  from both sound show ?thesis by blast
qed

lemma load_h_example:
  "load_h 2 same_dir fs_ab ''a.yaml'' (Some 0) [[''main.yaml'']]
     = Some (Inr [(''k'', VStr ''body'')],
             [[''main.yaml''], [''main.yaml'', ''a.yaml'']])"
  by (simp add: numeral_2_eq_2 or_empty_def load_yaml_def fs_ab_def or_else_def includes_of_def
        body_of_def alloc_def same_dir_def)

theorem resolve_deterministic_witness:
  "anc_ok [[''main.yaml'']] (Some 0) [''main.yaml'']
   \<and> load_h 2 same_dir fs_ab ''a.yaml'' (Some 0) [[''main.yaml'']]
       = Some (Inr [(''k'', VStr ''body'')], [[''main.yaml''], [''main.yaml'', ''a.yaml'']])
   \<and> load_stack_with_includes same_dir fs_ab ''a.yaml'' [''main.yaml'']
       = Inr [(''k'', VStr ''body'')]
   \<and> preserved [[''main.yaml'']] [[''main.yaml''], [''main.yaml'', ''a.yaml'']]
   \<and> (\<exists>N h1 h2.
          load_h N same_dir fs_ab ''a.yaml'' (Some 0) [[''main.yaml'']]
            = Some (Inr [(''k'', VStr ''body'')], h1)
        \<and> load_h N same_dir fs_ab ''a.yaml'' (Some 0) h1
            = Some (Inr [(''k'', VStr ''body'')], h2)
        \<and> preserved [[''main.yaml'']] h2)"
proof -
  have ok: "anc_ok [[''main.yaml'']] (Some 0) [''main.yaml'']"
    by (simp add: anc_ok_def)
  note t = resolve_deterministic[OF ok ok, of same_dir fs_ab "''a.yaml''" "''a.yaml''"]
  from t load_h_example
  have pure: "load_stack_with_includes same_dir fs_ab ''a.yaml'' [''main.yaml'']
       = Inr [(''k'', VStr ''body'')]"
    and pres: "preserved [[''main.yaml'']] [[''main.yaml''], [''main.yaml'', ''a.yaml'']]"
    by metis+
  from t obtain N where
    "\<forall>n\<ge>N. \<exists>h1 h2.
        load_h n same_dir fs_ab ''a.yaml'' (Some 0) [[''main.yaml'']]
          = Some (load_stack_with_includes same_dir fs_ab ''a.yaml'' [''main.yaml''], h1)
      \<and> load_h n same_dir fs_ab ''a.yaml'' (Some 0) h1
          = Some (load_stack_with_includes same_dir fs_ab ''a.yaml'' [''main.yaml''], h2)
      \<and> preserved [[''main.yaml'']] h1 \<and> preserved [[''main.yaml'']] h2"
    by blast
  then have "\<exists>h1 h2.
        load_h N same_dir fs_ab ''a.yaml'' (Some 0) [[''main.yaml'']]
          = Some (Inr [(''k'', VStr ''body'')], h1)
      \<and> load_h N same_dir fs_ab ''a.yaml'' (Some 0) h1
          = Some (Inr [(''k'', VStr ''body'')], h2)
      \<and> preserved [[''main.yaml'']] h2"
    unfolding pure by blast
  with ok load_h_example pure pres show ?thesis by blast
qed

end
